theory Spec2Isabelle
  imports Complex_Main "HOL-Library.AList" "HOL-Library.Multiset"
begin

section \<open>The pooling service of \<^verbatim>\<open>src/services/poolingService.ts\<close>\<close>

text \<open>
  The service keeps two JavaScript \<^verbatim>\<open>Map\<close>s (active requests and pools), matches an
  incoming request against the pools in insertion order, and recomputes a pool's route
  and cost fields when its membership changes.

  Conventions of the embedding:
  \<^item> a JavaScript \<^verbatim>\<open>number\<close> is a \<open>real\<close>: arithmetic is exact, there is no rounding
    and no NaN. The source computes in IEEE doubles. There the haversine term of
    \<^verbatim>\<open>calculateDistance\<close> can round above 1 for antipodal points, and
    \<^verbatim>\<open>Math.sqrt(1 - a)\<close> and the distance are then NaN; NaN fails every comparison and
    passes through \<^verbatim>\<open>Math.max\<close>. The real-valued functions have no such case, so what
    is proved below about distances, scores and the nearest dropoff is a fact of exact
    arithmetic and does not cover inputs on which the doubles give NaN;
  \<^item> a \<^verbatim>\<open>Map\<close> is an association list in insertion order with distinct keys;
    \<^verbatim>\<open>Map.set\<close> is \<open>AList.update\<close> (overwrite in place, or append), \<^verbatim>\<open>Map.get\<close> is
    \<open>map_of\<close>;
  \<^item> \<^verbatim>\<open>createdAt.getTime()\<close> is an \<open>int\<close> (milliseconds);
  \<^item> the pool id that \<^verbatim>\<open>createNewPool\<close> builds from \<^verbatim>\<open>Date.now()\<close> and
    \<^verbatim>\<open>Math.random()\<close> is an explicit argument;
  \<^item> \<^verbatim>\<open>throw new Error('Pool not found')\<close> is the value \<open>Inl PoolNotFound\<close>.
\<close>

subsection \<open>Data model\<close>

record point =
  lat :: real
  lng :: real
  address :: string

datatype stop_type = pickup_stop | dropoff_stop

text \<open>
  An element of a route. The single-request route holds the request's bare points
  (\<open>tag = None\<close>); the multi-request route holds copies that carry \<^verbatim>\<open>type\<close> and
  \<^verbatim>\<open>requestId\<close>.
\<close>

record routeStop = point +
  tag :: "(stop_type \<times> string) option"

record PoolRequest =
  id_req :: string
  customerId :: string
  pickup :: point
  dropoff :: point
  packageWeight :: real
  maxWaitTime :: real
  createdAt :: int

record PoolMatch =
  id_pool :: string
  requests :: "PoolRequest list"
  route :: "routeStop list"
  totalDistance :: real
  estimatedTime :: real
  costPerCustomer :: real
  savings :: real

record PoolingService =
  activeRequests :: "(string \<times> PoolRequest) list"
  pools :: "(string \<times> PoolMatch) list"

datatype error = PoolNotFound

definition emptyService :: PoolingService where
  "emptyService = \<lparr>activeRequests = [], pools = []\<rparr>"

definition bare :: "point \<Rightarrow> routeStop" where
  "bare p = \<lparr>lat = lat p, lng = lng p, address = address p, tag = None\<rparr>"

definition tagged :: "point \<Rightarrow> stop_type \<Rightarrow> string \<Rightarrow> routeStop" where
  "tagged p t r = \<lparr>lat = lat p, lng = lng p, address = address p, tag = Some (t, r)\<rparr>"

subsection \<open>Geometry\<close>

text \<open>\<^verbatim>\<open>Math.atan2(y, x)\<close> on reals (signed zeros are not modelled).\<close>

definition atan2 :: "real \<Rightarrow> real \<Rightarrow> real" where
  "atan2 y x =
     (if 0 < x then arctan (y / x)
      else if x < 0 then (if 0 \<le> y then arctan (y / x) + pi else arctan (y / x) - pi)
      else if 0 < y then pi / 2
      else if y < 0 then - (pi / 2)
      else 0)"

text \<open>The remainder operator \<^verbatim>\<open>%\<close> on numbers: the result has the sign of the dividend.\<close>

definition js_rem :: "real \<Rightarrow> real \<Rightarrow> real" where
  "js_rem a b =
     (if 0 \<le> a / b then a - b * of_int \<lfloor>a / b\<rfloor> else a - b * of_int \<lceil>a / b\<rceil>)"

definition calculateDistance :: "'a point_scheme \<Rightarrow> 'b point_scheme \<Rightarrow> real" where
  "calculateDistance point1 point2 =
     (let R = 6371;
          dLat = (lat point2 - lat point1) * pi / 180;
          dLng = (lng point2 - lng point1) * pi / 180;
          a = sin (dLat / 2) * sin (dLat / 2) +
              cos (lat point1 * pi / 180) * cos (lat point2 * pi / 180) *
              sin (dLng / 2) * sin (dLng / 2);
          c = 2 * atan2 (sqrt a) (sqrt (1 - a))
      in R * c)"

definition calculateBearing :: "'a point_scheme \<Rightarrow> 'b point_scheme \<Rightarrow> real" where
  "calculateBearing point1 point2 =
     (let lat1 = lat point1 * pi / 180;
          lat2 = lat point2 * pi / 180;
          deltaLng = (lng point2 - lng point1) * pi / 180;
          y = sin deltaLng * cos lat2;
          x = cos lat1 * sin lat2 - sin lat1 * cos lat2 * cos deltaLng;
          bearing = atan2 y x * 180 / pi
      in js_rem (bearing + 360) 360)"

subsection \<open>Compatibility score\<close>

definition calculateDirectionSimilarity :: "PoolRequest \<Rightarrow> PoolRequest \<Rightarrow> real" where
  "calculateDirectionSimilarity req1 req2 =
     (let bearing1 = calculateBearing (pickup req1) (dropoff req1);
          bearing2 = calculateBearing (pickup req2) (dropoff req2);
          angleDiff = \<bar>bearing1 - bearing2\<bar>;
          angleDiff = (if angleDiff > 180 then 360 - angleDiff else angleDiff)
      in max 0 (1 - angleDiff / 90))"

text \<open>The value added to \<^verbatim>\<open>totalScore\<close> for one member of the pool.\<close>

definition requestScore :: "PoolRequest \<Rightarrow> PoolRequest \<Rightarrow> real" where
  "requestScore existingRequest request =
     (let pickupDistance = calculateDistance (pickup existingRequest) (pickup request);
          pickupScore = max 0 (1 - pickupDistance / 5);
          dropoffDistance = calculateDistance (dropoff existingRequest) (dropoff request);
          dropoffScore = max 0 (1 - dropoffDistance / 5);
          directionScore = calculateDirectionSimilarity existingRequest request
      in pickupScore * 0.3 + dropoffScore * 0.3 + directionScore * 0.4)"

text \<open>The \<^verbatim>\<open>for ... of pool.requests\<close> loop, carrying \<^verbatim>\<open>totalScore\<close> and \<^verbatim>\<open>comparisons\<close>.\<close>

fun compat_loop :: "PoolRequest list \<Rightarrow> PoolRequest \<Rightarrow> real \<Rightarrow> nat \<Rightarrow> real \<times> nat" where
  "compat_loop [] request totalScore comparisons = (totalScore, comparisons)"
| "compat_loop (existingRequest # rest) request totalScore comparisons =
     compat_loop rest request
       (totalScore + requestScore existingRequest request) (comparisons + 1)"

definition calculateRouteCompatibility :: "PoolMatch \<Rightarrow> PoolRequest \<Rightarrow> real" where
  "calculateRouteCompatibility pool request =
     (case compat_loop (requests pool) request 0 0 of
        (totalScore, comparisons) \<Rightarrow>
          if comparisons > 0 then totalScore / real comparisons else 0)"

subsection \<open>Filters of the matcher\<close>

definition calculateAdditionalTime :: "PoolMatch \<Rightarrow> PoolRequest \<Rightarrow> real" where
  "calculateAdditionalTime pool request =
     (let additionalStops = 2; timePerStop = 5; routeDeviation = 10
      in additionalStops * timePerStop + routeDeviation)"

definition calculatePoolCost :: "PoolMatch \<Rightarrow> PoolRequest \<Rightarrow> real" where
  "calculatePoolCost pool request =
     (let baseFare = 50;
          totalDistance = totalDistance pool + 2;
          distanceCost = totalDistance * 10;
          totalCost = baseFare + distanceCost
      in totalCost / real (length (requests pool) + 1))"

text \<open>The loop over \<^verbatim>\<open>this.pools.values()\<close>; each \<^verbatim>\<open>continue\<close> moves to the next pool.\<close>

fun findMatchingPool_loop :: "PoolMatch list \<Rightarrow> PoolRequest \<Rightarrow> PoolMatch option" where
  "findMatchingPool_loop [] request = None"
| "findMatchingPool_loop (pool # rest) request =
     (let maxWaitTimeMinutes = 15 in
      if length (requests pool) \<ge> 3 then findMatchingPool_loop rest request
      else if calculateAdditionalTime pool request > maxWaitTimeMinutes
        then findMatchingPool_loop rest request
      else if calculateRouteCompatibility pool request < 0.7
        then findMatchingPool_loop rest request
      else if calculatePoolCost pool request < costPerCustomer pool * 1.1 then Some pool
      else findMatchingPool_loop rest request)"

definition findMatchingPool :: "PoolingService \<Rightarrow> PoolRequest \<Rightarrow> PoolMatch option" where
  "findMatchingPool s request = findMatchingPool_loop (map snd (pools s)) request"

subsection \<open>Route optimizer\<close>

text \<open>
  The inner \<^verbatim>\<open>for (let i = 1; ...)\<close> loop of \<^verbatim>\<open>optimizeRoute\<close>: it carries
  \<^verbatim>\<open>nearestIndex\<close> and \<^verbatim>\<open>nearestDistance\<close> and replaces them only on a strictly
  smaller distance.
\<close>

function nearest_loop :: "routeStop \<Rightarrow> routeStop list \<Rightarrow> nat \<Rightarrow> nat \<Rightarrow> real \<Rightarrow> nat" where
  "nearest_loop currentLocation remainingDropoffs i nearestIndex nearestDistance =
     (if i < length remainingDropoffs then
        (if calculateDistance currentLocation (remainingDropoffs ! i) < nearestDistance
         then nearest_loop currentLocation remainingDropoffs (i + 1) i
                (calculateDistance currentLocation (remainingDropoffs ! i))
         else nearest_loop currentLocation remainingDropoffs (i + 1) nearestIndex nearestDistance)
      else nearestIndex)"
  by pat_completeness auto
termination
  by (relation "measure (\<lambda>(c, ds, i, n, d). length ds - i)") auto

text \<open>\<^verbatim>\<open>xs.splice(i, 1)\<close>: what is left of \<open>xs\<close>.\<close>

declare nearest_loop.simps [simp del]

definition splice1 :: "nat \<Rightarrow> 'a list \<Rightarrow> 'a list" where
  "splice1 i xs = take i xs @ drop (Suc i) xs"

lemma nearest_loop_less:
  "nearestIndex < length ds \<Longrightarrow> nearest_loop c ds i nearestIndex d < length ds"
proof (induction c ds i nearestIndex d rule: nearest_loop.induct)
  case (1 c ds i n d)
  show ?case
    by (subst nearest_loop.simps) (use 1 in auto)
qed

lemma length_splice1: "i < length xs \<Longrightarrow> length (splice1 i xs) < length xs"
  by (simp add: splice1_def)

text \<open>The \<^verbatim>\<open>while (remainingDropoffs.length > 0)\<close> loop.\<close>

function dropoff_loop :: "routeStop \<Rightarrow> routeStop list \<Rightarrow> routeStop list \<Rightarrow> routeStop list" where
  "dropoff_loop currentLocation remainingDropoffs allPoints =
     (if length remainingDropoffs > 0 then
        dropoff_loop
          (remainingDropoffs !
             nearest_loop currentLocation remainingDropoffs 1 0
               (calculateDistance currentLocation (remainingDropoffs ! 0)))
          (splice1
             (nearest_loop currentLocation remainingDropoffs 1 0
               (calculateDistance currentLocation (remainingDropoffs ! 0)))
             remainingDropoffs)
          (allPoints @
             [remainingDropoffs !
                nearest_loop currentLocation remainingDropoffs 1 0
                  (calculateDistance currentLocation (remainingDropoffs ! 0))])
      else allPoints)"
  by pat_completeness auto
termination
  by (relation "measure (\<lambda>(c, ds, a). length ds)")
     (auto intro!: length_splice1 nearest_loop_less)

declare dropoff_loop.simps [simp del]

text \<open>
  \<^verbatim>\<open>[...requests].sort(...)\<close> with the comparator \<^verbatim>\<open>a.createdAt - b.createdAt\<close> is a
  stable sort on the creation time (ECMAScript 2019), here \<open>sort_key createdAt\<close>.
  With no request at all, \<^verbatim>\<open>allPoints\<close> and \<^verbatim>\<open>remainingDropoffs\<close> are empty, the loop
  does not run and \<^verbatim>\<open>currentLocation\<close> (undefined) is never read.
\<close>

definition optimizeRoute :: "PoolRequest list \<Rightarrow> routeStop list" where
  "optimizeRoute reqs =
     (if length reqs = 1 then [bare (pickup (reqs ! 0)), bare (dropoff (reqs ! 0))]
      else
        (let sortedRequests = sort_key createdAt reqs;
             allPoints = map (\<lambda>request. tagged (pickup request) pickup_stop (id_req request))
                           sortedRequests;
             remainingDropoffs = map (\<lambda>r. tagged (dropoff r) dropoff_stop (id_req r)) reqs
         in if allPoints = [] then []
            else dropoff_loop (last allPoints) remainingDropoffs allPoints))"

subsection \<open>Cost allocation\<close>

text \<open>
  The sum of the distances of consecutive stops; the source adds them from left to
  right starting at 0, which is the same real number.
\<close>

fun calculateTotalDistance :: "'a point_scheme list \<Rightarrow> real" where
  "calculateTotalDistance (p # q # rest) =
     calculateDistance p q + calculateTotalDistance (q # rest)"
| "calculateTotalDistance _ = 0"

definition calculateEstimatedTime :: "'a point_scheme list \<Rightarrow> nat \<Rightarrow> real" where
  "calculateEstimatedTime rt customerCount =
     (let distance = calculateTotalDistance rt;
          baseTime = distance * 2;
          stopTime = (real customerCount * 2) * 5
      in baseTime + stopTime)"

definition calculateSavings :: "PoolMatch \<Rightarrow> real" where
  "calculateSavings pool =
     (if length (requests pool) = 1 then 0
      else
        (let totalIndividualCost =
               (\<Sum>request \<leftarrow> requests pool.
                   50 + calculateDistance (pickup request) (dropoff request) * 10);
             totalPoolCost = costPerCustomer pool * real (length (requests pool))
         in totalIndividualCost - totalPoolCost))"

subsection \<open>Operations of the service\<close>

definition addToExistingPool ::
  "PoolingService \<Rightarrow> string \<Rightarrow> PoolRequest \<Rightarrow> error + PoolingService \<times> string" where
  "addToExistingPool s poolId request =
     (case map_of (pools s) poolId of
        None \<Rightarrow> Inl PoolNotFound
      | Some pool \<Rightarrow>
          (let pool = pool\<lparr>requests := requests pool @ [request]\<rparr>;
               pool = pool\<lparr>route := optimizeRoute (requests pool)\<rparr>;
               pool = pool\<lparr>totalDistance := calculateTotalDistance (route pool)\<rparr>;
               pool = pool\<lparr>estimatedTime :=
                        calculateEstimatedTime (route pool) (length (requests pool))\<rparr>;
               pool = pool\<lparr>costPerCustomer := calculatePoolCost pool request\<rparr>;
               pool = pool\<lparr>savings := calculateSavings pool\<rparr>
           in Inr (s\<lparr>pools := AList.update poolId pool (pools s)\<rparr>, poolId)))"

definition createNewPool ::
  "PoolingService \<Rightarrow> string \<Rightarrow> PoolRequest \<Rightarrow> PoolingService \<times> string" where
  "createNewPool s poolId request =
     (let pool = \<lparr>id_pool = poolId,
                  requests = [request],
                  route = [bare (pickup request), bare (dropoff request)],
                  totalDistance = calculateDistance (pickup request) (dropoff request),
                  estimatedTime = 30,
                  costPerCustomer = 100,
                  savings = 0\<rparr>
      in (s\<lparr>pools := AList.update poolId pool (pools s)\<rparr>, poolId))"

definition addPoolRequest ::
  "PoolingService \<Rightarrow> string \<Rightarrow> PoolRequest \<Rightarrow> error + PoolingService \<times> string" where
  "addPoolRequest s newPoolId request =
     (let s = s\<lparr>activeRequests := AList.update (id_req request) request (activeRequests s)\<rparr>
      in case findMatchingPool s request of
           Some matchingPool \<Rightarrow> addToExistingPool s (id_pool matchingPool) request
         | None \<Rightarrow> Inr (createNewPool s newPoolId request))"

definition getPool :: "PoolingService \<Rightarrow> string \<Rightarrow> PoolMatch option" where
  "getPool s poolId = map_of (pools s) poolId"

definition getActivePools :: "PoolingService \<Rightarrow> PoolMatch list" where
  "getActivePools s = map snd (pools s)"

text \<open>\<^verbatim>\<open>findIndex\<close>; \<open>None\<close> stands for the result \<open>-1\<close>.\<close>

fun findIndex :: "('a \<Rightarrow> bool) \<Rightarrow> 'a list \<Rightarrow> nat option" where
  "findIndex P [] = None"
| "findIndex P (x # xs) = (if P x then Some 0 else map_option Suc (findIndex P xs))"

text \<open>
  The loop of \<^verbatim>\<open>removeFromPool\<close> over \<^verbatim>\<open>this.pools.entries()\<close>. The first argument is
  what is left to iterate, the last one the whole map; the loop changes the map at
  the first pool that holds the request and stops there (\<^verbatim>\<open>break\<close>). The pool object
  under iteration is the one stored under \<open>poolId\<close>, so its mutation is an update
  of that entry.
\<close>

fun removeFromPool_loop ::
  "(string \<times> PoolMatch) list \<Rightarrow> string \<Rightarrow> (string \<times> PoolMatch) list \<Rightarrow> (string \<times> PoolMatch) list"
where
  "removeFromPool_loop [] requestId ps = ps"
| "removeFromPool_loop ((poolId, pool) # rest) requestId ps =
     (case findIndex (\<lambda>r. id_req r = requestId) (requests pool) of
        None \<Rightarrow> removeFromPool_loop rest requestId ps
      | Some requestIndex \<Rightarrow>
          (let pool = pool\<lparr>requests := splice1 requestIndex (requests pool)\<rparr> in
           if length (requests pool) = 0 then AList.delete poolId ps
           else
             (let pool = pool\<lparr>route := optimizeRoute (requests pool)\<rparr>;
                  pool = pool\<lparr>totalDistance := calculateTotalDistance (route pool)\<rparr>;
                  pool = pool\<lparr>estimatedTime :=
                           calculateEstimatedTime (route pool) (length (requests pool))\<rparr>;
                  pool = pool\<lparr>costPerCustomer :=
                           totalDistance pool * 10 / real (length (requests pool))\<rparr>;
                  pool = pool\<lparr>savings := calculateSavings pool\<rparr>
              in AList.update poolId pool ps)))"

definition removeFromPool :: "PoolingService \<Rightarrow> string \<Rightarrow> PoolingService" where
  "removeFromPool s requestId =
     s\<lparr>activeRequests := AList.delete requestId (activeRequests s),
       pools := removeFromPool_loop (pools s) requestId (pools s)\<rparr>"

subsection \<open>Sequences of operations\<close>

datatype operation = AddRequest string PoolRequest | RemoveRequest string

text \<open>
  Runs the public operations from left to right; \<open>AddRequest poolId r\<close> is
  \<^verbatim>\<open>addPoolRequest(r)\<close> where a new pool would get the id \<open>poolId\<close>. An exception
  ends the run.
\<close>

fun run :: "PoolingService \<Rightarrow> operation list \<Rightarrow> error + PoolingService" where
  "run s [] = Inr s"
| "run s (AddRequest newPoolId request # ops) =
     (case addPoolRequest s newPoolId request of
        Inl e \<Rightarrow> Inl e
      | Inr (s', poolId) \<Rightarrow> run s' ops)"
| "run s (RemoveRequest requestId # ops) = run (removeFromPool s requestId) ops"

text \<open>The ids of the members of every pool, in registry order.\<close>

definition membership :: "PoolingService \<Rightarrow> (string \<times> string list) list" where
  "membership s = map (\<lambda>(poolId, pool). (poolId, map id_req (requests pool))) (pools s)"

subsection \<open>Scenario requests\<close>

definition requestA :: PoolRequest where
  "requestA =
     \<lparr>id_req = ''req_1'', customerId = ''customer_1'',
      pickup = \<lparr>lat = 19.0760, lng = 72.8777, address = ''pickup A''\<rparr>,
      dropoff = \<lparr>lat = 19.0896, lng = 72.8656, address = ''dropoff A''\<rparr>,
      packageWeight = 1, maxWaitTime = 30, createdAt = 1000\<rparr>"

text \<open>A second request on the same pickup and dropoff points, created later.\<close>

definition requestB :: PoolRequest where
  "requestB = requestA\<lparr>id_req := ''req_2'', customerId := ''customer_2'', createdAt := 2000\<rparr>"

subsection \<open>Notions used in the statements\<close>

text \<open>
  The registry after \<^verbatim>\<open>addPoolRequest(requestA)\<close> on the empty service (Scenario A),
  see \<open>run_A\<close>.
\<close>

definition poolA :: PoolMatch where
  "poolA =
     \<lparr>id_pool = ''pool_1'', requests = [requestA],
      route = [bare (pickup requestA), bare (dropoff requestA)],
      totalDistance = calculateDistance (pickup requestA) (dropoff requestA),
      estimatedTime = 30, costPerCustomer = 100, savings = 0\<rparr>"

definition serviceA :: PoolingService where
  "serviceA = \<lparr>activeRequests = [(''req_1'', requestA)], pools = [(''pool_1'', poolA)]\<rparr>"

text \<open>
  Registries with a pool of two and of three members, built by the join path
  \<^verbatim>\<open>addToExistingPool\<close> from \<open>serviceA\<close>.
\<close>

definition requestC :: PoolRequest where
  "requestC =
     \<lparr>id_req = ''req_3'', customerId = ''customer_3'',
      pickup = \<lparr>lat = 19.0770, lng = 72.8787, address = ''pickup C''\<rparr>,
      dropoff = \<lparr>lat = 19.0900, lng = 72.8660, address = ''dropoff C''\<rparr>,
      packageWeight = 2, maxWaitTime = 30, createdAt = 3000\<rparr>"

definition requestD :: PoolRequest where
  "requestD = requestA\<lparr>id_req := ''req_4'', customerId := ''customer_4'', createdAt := 4000\<rparr>"

definition serviceAB :: PoolingService where
  "serviceAB =
     (case addToExistingPool serviceA ''pool_1'' requestB of
        Inr (s, poolId) \<Rightarrow> s | Inl e \<Rightarrow> serviceA)"

definition serviceABC :: PoolingService where
  "serviceABC =
     (case addToExistingPool serviceAB ''pool_1'' requestC of
        Inr (s, poolId) \<Rightarrow> s | Inl e \<Rightarrow> serviceAB)"

text \<open>
  The registry after \<^verbatim>\<open>addPoolRequest(requestA)\<close> twice on the empty service: both
  pools hold the same request.
\<close>

definition serviceAA :: PoolingService where
  "serviceAA =
     \<lparr>activeRequests = [(''req_1'', requestA)],
      pools = [(''pool_1'', poolA), (''pool_2'', poolA\<lparr>id_pool := ''pool_2''\<rparr>)]\<rparr>"

text \<open>
  A pool holds a request with the given id; the pool that the else-branch of
  \<^verbatim>\<open>removeFromPool\<close> leaves behind; the well-formedness of the pool \<^verbatim>\<open>Map\<close> (distinct
  keys, every pool stored under its own id); the capacity bounds.
\<close>

definition hasRequest :: "string \<Rightarrow> PoolMatch \<Rightarrow> bool" where
  "hasRequest requestId pool \<longleftrightarrow> requestId \<in> id_req ` set (requests pool)"

definition afterRemoval :: "PoolMatch \<Rightarrow> nat \<Rightarrow> PoolMatch" where
  "afterRemoval pool requestIndex =
     (let pool = pool\<lparr>requests := splice1 requestIndex (requests pool)\<rparr>;
          pool = pool\<lparr>route := optimizeRoute (requests pool)\<rparr>;
          pool = pool\<lparr>totalDistance := calculateTotalDistance (route pool)\<rparr>;
          pool = pool\<lparr>estimatedTime :=
                   calculateEstimatedTime (route pool) (length (requests pool))\<rparr>;
          pool = pool\<lparr>costPerCustomer :=
                   totalDistance pool * 10 / real (length (requests pool))\<rparr>;
          pool = pool\<lparr>savings := calculateSavings pool\<rparr>
      in pool)"

text \<open>Coordinates in range: latitude in \<open>[-90, 90]\<close>, longitude in \<open>[-180, 180]\<close>.\<close>

definition validPoint :: "'a point_scheme \<Rightarrow> bool" where
  "validPoint p \<longleftrightarrow> - 90 \<le> lat p \<and> lat p \<le> 90 \<and> - 180 \<le> lng p \<and> lng p \<le> 180"

definition validRequest :: "PoolRequest \<Rightarrow> bool" where
  "validRequest r \<longleftrightarrow> validPoint (pickup r) \<and> validPoint (dropoff r)"

text \<open>
  The cost allocator in the words of the specification: the total distance is the sum
  of consecutive-stop distances along the optimized route, the estimated time is
  \<open>totalDistance * 2 + (2 * memberCount) * 5\<close>, and the cost per customer is
  \<open>(50 + totalDistance * 10) / memberCount\<close>.
\<close>

definition spec_totalDistance :: "PoolRequest list \<Rightarrow> real" where
  "spec_totalDistance members = calculateTotalDistance (optimizeRoute members)"

definition spec_estimatedTime :: "PoolRequest list \<Rightarrow> real" where
  "spec_estimatedTime members =
     spec_totalDistance members * 2 + (2 * real (length members)) * 5"

definition spec_costPerCustomer :: "PoolRequest list \<Rightarrow> real" where
  "spec_costPerCustomer members =
     (50 + spec_totalDistance members * 10) / real (length members)"

text \<open>The pool that \<^verbatim>\<open>addToExistingPool\<close> stores after pushing the request.\<close>

definition afterJoin :: "PoolMatch \<Rightarrow> PoolRequest \<Rightarrow> PoolMatch" where
  "afterJoin pool request =
     (let pool = pool\<lparr>requests := requests pool @ [request]\<rparr>;
          pool = pool\<lparr>route := optimizeRoute (requests pool)\<rparr>;
          pool = pool\<lparr>totalDistance := calculateTotalDistance (route pool)\<rparr>;
          pool = pool\<lparr>estimatedTime :=
                   calculateEstimatedTime (route pool) (length (requests pool))\<rparr>;
          pool = pool\<lparr>costPerCustomer := calculatePoolCost pool request\<rparr>;
          pool = pool\<lparr>savings := calculateSavings pool\<rparr>
      in pool)"

text \<open>
  The route optimizer in the words of the specification. At each step the next
  dropoff is the not yet visited one at minimum distance from the current location,
  the first such in array order: \<open>spec_nearest_index\<close> counts the dropoffs before the
  first one whose distance is the minimum. \<open>firstMinIndex\<close> says the same by indices.
\<close>

definition spec_nearest_index :: "routeStop \<Rightarrow> routeStop list \<Rightarrow> nat" where
  "spec_nearest_index current ds =
     (let m = Min (set (map (calculateDistance current) ds))
      in length (takeWhile (\<lambda>d. calculateDistance current d \<noteq> m) ds))"

lemma spec_nearest_index_less:
  assumes "ds \<noteq> []"
  shows "spec_nearest_index current ds < length ds"
proof -
  let ?m = "Min (set (map (calculateDistance current) ds))"
  from assms have "?m \<in> set (map (calculateDistance current) ds)"
    by (intro Min_in) simp_all
  then obtain d where d: "d \<in> set ds" "calculateDistance current d = ?m" by auto
  have "takeWhile (\<lambda>d. calculateDistance current d \<noteq> ?m) ds \<noteq> ds"
    using d by (auto simp: takeWhile_eq_all_conv)
  then have "length (takeWhile (\<lambda>d. calculateDistance current d \<noteq> ?m) ds) \<noteq> length ds"
    by (metis takeWhile_eq_take take_all order_refl)
  with length_takeWhile_le [of "\<lambda>d. calculateDistance current d \<noteq> ?m" ds]
  show ?thesis by (simp add: spec_nearest_index_def Let_def)
qed

function spec_dropoffs :: "routeStop \<Rightarrow> routeStop list \<Rightarrow> routeStop list" where
  "spec_dropoffs current ds =
     (if ds = [] then []
      else ds ! spec_nearest_index current ds #
           spec_dropoffs (ds ! spec_nearest_index current ds)
             (splice1 (spec_nearest_index current ds) ds))"
  by pat_completeness auto
termination
  by (relation "measure (\<lambda>(c, ds). length ds)")
     (auto intro!: length_splice1 spec_nearest_index_less)

declare spec_dropoffs.simps [simp del]

definition firstMinIndex :: "routeStop \<Rightarrow> routeStop list \<Rightarrow> nat \<Rightarrow> bool" where
  "firstMinIndex current ds i \<longleftrightarrow>
     i < length ds \<and>
     (\<forall>j<length ds. calculateDistance current (ds ! i) \<le> calculateDistance current (ds ! j)) \<and>
     (\<forall>j<i. calculateDistance current (ds ! i) < calculateDistance current (ds ! j))"

text \<open>The stops that \<^verbatim>\<open>optimizeRoute\<close> builds for a request.\<close>

definition pickupStopOf :: "PoolRequest \<Rightarrow> routeStop" where
  "pickupStopOf r = tagged (pickup r) pickup_stop (id_req r)"

definition dropoffStopOf :: "PoolRequest \<Rightarrow> routeStop" where
  "dropoffStopOf r = tagged (dropoff r) dropoff_stop (id_req r)"

definition wellFormed :: "PoolingService \<Rightarrow> bool" where
  "wellFormed s \<longleftrightarrow>
     distinct (map fst (pools s)) \<and> (\<forall>(poolId, pool)\<in>set (pools s). id_pool pool = poolId)"

definition capacityOk :: "PoolingService \<Rightarrow> bool" where
  "capacityOk s \<longleftrightarrow>
     (\<forall>pool\<in>set (getActivePools s). 1 \<le> length (requests pool) \<and> length (requests pool) \<le> 3)"

section \<open>Properties\<close>

subsection \<open>The matcher\<close>

lemma calculateAdditionalTime_eq: "calculateAdditionalTime pool request = 20"
  by (simp add: calculateAdditionalTime_def)

lemma findMatchingPool_loop_None: "findMatchingPool_loop ps request = None"
  by (induction ps) (simp_all add: calculateAdditionalTime_eq)

lemma findMatchingPool_None: "findMatchingPool s request = None"
  by (simp add: findMatchingPool_def findMatchingPool_loop_None)

lemma addPoolRequest_creates:
  "addPoolRequest s newPoolId request =
     Inr (createNewPool
            (s\<lparr>activeRequests := AList.update (id_req request) request (activeRequests s)\<rparr>)
            newPoolId request)"
  by (simp add: addPoolRequest_def findMatchingPool_None)

text \<open>
  C2. Scenario B: a registry holding the single-member pool of \<open>requestA\<close> receives
  \<open>requestB\<close>, whose pickup and dropoff are those of \<open>requestA\<close> (distance 0, same
  bearing). The claim expects the pool to have two members afterwards. The code
  compares the additional delay, the constant 20, against the cutoff 15, skips the
  pool and opens a second pool.
\<close>

theorem scenario_B_opens_second_pool:
  "calculateDistance (pickup requestA) (pickup requestB) = 0 \<and>
   calculateDistance (dropoff requestA) (dropoff requestB) = 0 \<and>
   calculateBearing (pickup requestA) (dropoff requestA) =
     calculateBearing (pickup requestB) (dropoff requestB) \<and>
   map_sum id membership (run emptyService [AddRequest ''pool_1'' requestA]) =
     Inr [(''pool_1'', [''req_1''])] \<and>
   map_sum id membership
       (run emptyService [AddRequest ''pool_1'' requestA, AddRequest ''pool_2'' requestB]) =
     Inr [(''pool_1'', [''req_1'']), (''pool_2'', [''req_2''])]"
  by (simp add: addPoolRequest_creates createNewPool_def emptyService_def membership_def
      requestA_def requestB_def calculateDistance_def atan2_def)

subsection \<open>Compatibility score\<close>

lemma atan2_nonneg: "0 \<le> y \<Longrightarrow> 0 \<le> atan2 y x"
proof -
  assume y: "0 \<le> y"
  have "- (pi / 2) < arctan (y / x)" by (rule arctan_lbound)
  then have "0 \<le> arctan (y / x) + pi" using pi_gt_zero by linarith
  with y show ?thesis by (simp add: atan2_def)
qed

lemma atan2_bounds: "- pi \<le> atan2 y x \<and> atan2 y x \<le> pi"
proof -
  have b: "- (pi / 2) < arctan (y / x)" "arctan (y / x) < pi / 2"
    by (rule arctan_lbound, rule arctan_ubound)
  have neg: "x < 0 \<Longrightarrow> 0 \<le> y \<Longrightarrow> arctan (y / x) \<le> 0"
    by (simp add: divide_nonneg_neg)
  have pos: "x < 0 \<Longrightarrow> y < 0 \<Longrightarrow> 0 \<le> arctan (y / x)"
    by (simp add: divide_neg_neg less_imp_le)
  from b neg pos show ?thesis
    unfolding atan2_def using pi_gt_zero by (auto simp del: pi_gt_zero)
qed

lemma cos_deg_nonneg: "- 90 \<le> d \<Longrightarrow> d \<le> 90 \<Longrightarrow> 0 \<le> cos (d * pi / 180)"
proof (rule cos_ge_zero)
  assume "- 90 \<le> d" "d \<le> 90"
  then have "(- 90) * pi \<le> d * pi" "d * pi \<le> 90 * pi"
    by (intro mult_right_mono; simp)+
  then show "- (pi / 2) \<le> d * pi / 180" "d * pi / 180 \<le> pi / 2" by simp_all
qed

lemma calculateDistance_nonneg:
  assumes "validPoint p" and "validPoint q"
  shows "0 \<le> calculateDistance p q"
proof -
  let ?x = "(lat q - lat p) * pi / 180 / 2"
  let ?y = "(lng q - lng p) * pi / 180 / 2"
  let ?c = "cos (lat p * pi / 180) * cos (lat q * pi / 180)"
  let ?a = "sin ?x * sin ?x + ?c * sin ?y * sin ?y"
  from assms have "0 \<le> ?c"
    by (simp add: validPoint_def cos_deg_nonneg)
  then have "0 \<le> ?c * (sin ?y * sin ?y)" by (rule mult_nonneg_nonneg) simp
  then have "0 \<le> ?a" by (simp add: mult.assoc)
  then have "0 \<le> atan2 (sqrt ?a) (sqrt (1 - ?a))" by (intro atan2_nonneg) simp
  then show ?thesis by (simp add: calculateDistance_def Let_def)
qed

lemma js_rem_range:
  assumes "0 \<le> a" and "0 < b"
  shows "0 \<le> js_rem a b \<and> js_rem a b < b"
proof -
  let ?q = "of_int \<lfloor>a / b\<rfloor> :: real"
  from assms have q: "0 \<le> a / b" by simp
  have "?q \<le> a / b" and "a / b < ?q + 1" by linarith+
  with assms(2) have "?q * b \<le> a" and "a < (?q + 1) * b"
    by (simp_all only: pos_le_divide_eq pos_divide_less_eq)
  then have "0 \<le> a - b * ?q" and "a - b * ?q < b" by (simp_all add: algebra_simps)
  with q show ?thesis by (simp add: js_rem_def)
qed

lemma calculateBearing_range:
  "0 \<le> calculateBearing p q \<and> calculateBearing p q < 360"
proof -
  let ?t = "atan2 (sin ((lng q - lng p) * pi / 180) * cos (lat q * pi / 180))
              (cos (lat p * pi / 180) * sin (lat q * pi / 180) -
               sin (lat p * pi / 180) * cos (lat q * pi / 180) * cos ((lng q - lng p) * pi / 180))"
  have "- pi \<le> ?t" using atan2_bounds by blast
  then have "- 180 * pi \<le> ?t * 180" by simp
  then have "- 180 \<le> ?t * 180 / pi" by (simp add: pos_le_divide_eq)
  then have "0 \<le> ?t * 180 / pi + 360" by simp
  then have "0 \<le> js_rem (?t * 180 / pi + 360) 360 \<and> js_rem (?t * 180 / pi + 360) 360 < 360"
    by (intro js_rem_range) simp_all
  then show ?thesis by (simp add: calculateBearing_def Let_def)
qed

lemma calculateDirectionSimilarity_range:
  "0 \<le> calculateDirectionSimilarity r1 r2 \<and> calculateDirectionSimilarity r1 r2 \<le> 1"
proof -
  let ?b1 = "calculateBearing (pickup r1) (dropoff r1)"
  let ?b2 = "calculateBearing (pickup r2) (dropoff r2)"
  have "0 \<le> ?b1 \<and> ?b1 < 360" "0 \<le> ?b2 \<and> ?b2 < 360" by (rule calculateBearing_range)+
  then have "\<bar>?b1 - ?b2\<bar> \<le> 360" by linarith
  then show ?thesis by (simp add: calculateDirectionSimilarity_def Let_def)
qed

lemma weighted_range:
  fixes p d s :: real
  assumes "0 \<le> p \<and> p \<le> 1" and "0 \<le> d \<and> d \<le> 1" and "0 \<le> s \<and> s \<le> 1"
  shows "0 \<le> p * 0.3 + d * 0.3 + s * 0.4 \<and> p * 0.3 + d * 0.3 + s * 0.4 \<le> 1"
  using assms by simp

lemma requestScore_range:
  assumes "validRequest m" and "validRequest r"
  shows "0 \<le> requestScore m r \<and> requestScore m r \<le> 1"
proof -
  let ?p = "max 0 (1 - calculateDistance (pickup m) (pickup r) / 5)"
  let ?d = "max 0 (1 - calculateDistance (dropoff m) (dropoff r) / 5)"
  let ?s = "calculateDirectionSimilarity m r"
  from assms have "0 \<le> calculateDistance (pickup m) (pickup r)"
    and "0 \<le> calculateDistance (dropoff m) (dropoff r)"
    by (simp_all add: validRequest_def calculateDistance_nonneg)
  then have "0 \<le> ?p \<and> ?p \<le> 1" and "0 \<le> ?d \<and> ?d \<le> 1" by simp_all
  moreover have "0 \<le> ?s \<and> ?s \<le> 1" by (rule calculateDirectionSimilarity_range)
  ultimately have "0 \<le> ?p * 0.3 + ?d * 0.3 + ?s * 0.4 \<and> ?p * 0.3 + ?d * 0.3 + ?s * 0.4 \<le> 1"
    by (rule weighted_range)
  then show ?thesis by (simp add: requestScore_def Let_def)
qed

lemma compat_loop_eq:
  "compat_loop ms r t n = (t + (\<Sum>m\<leftarrow>ms. requestScore m r), n + length ms)"
  by (induction ms arbitrary: t n) (simp_all add: add.assoc)

lemma sum_list_range:
  "\<forall>x\<in>set xs. 0 \<le> f x \<and> f x \<le> (1::real) \<Longrightarrow>
   0 \<le> (\<Sum>x\<leftarrow>xs. f x) \<and> (\<Sum>x\<leftarrow>xs. f x) \<le> real (length xs)"
  by (induction xs) auto

text \<open>
  The bound on the score in exact arithmetic (the property of C6, which fails in
  doubles on antipodal pickups, where the score is NaN). For a pool with at least one
  member and valid coordinates on every member and on the candidate, the real-valued
  score is the arithmetic mean over the members of
  \<open>0.30 * pickupScore + 0.30 * dropoffScore + 0.40 * directionScore\<close> and lies in
  \<open>[0, 1]\<close>.
\<close>

theorem score_bounded:
  assumes "requests pool \<noteq> []" and "\<forall>m\<in>set (requests pool). validRequest m"
    and "validRequest request"
  shows "calculateRouteCompatibility pool request =
           (\<Sum>m\<leftarrow>requests pool.
               0.30 * max 0 (1 - calculateDistance (pickup m) (pickup request) / 5) +
               0.30 * max 0 (1 - calculateDistance (dropoff m) (dropoff request) / 5) +
               0.40 * calculateDirectionSimilarity m request) /
             real (length (requests pool)) \<and>
         0 \<le> calculateRouteCompatibility pool request \<and>
         calculateRouteCompatibility pool request \<le> 1"
proof -
  let ?n = "real (length (requests pool))"
  let ?t = "\<Sum>m\<leftarrow>requests pool. requestScore m request"
  from assms(1) have n: "0 < ?n" by simp
  then have eq: "calculateRouteCompatibility pool request = ?t / ?n"
    by (simp add: calculateRouteCompatibility_def compat_loop_eq)
  from assms(2,3) have "\<forall>m\<in>set (requests pool).
      0 \<le> requestScore m request \<and> requestScore m request \<le> 1"
    by (simp add: requestScore_range)
  then have "0 \<le> ?t \<and> ?t \<le> ?n" by (rule sum_list_range)
  with n have "0 \<le> ?t / ?n \<and> ?t / ?n \<le> 1" by simp
  moreover have "?t = (\<Sum>m\<leftarrow>requests pool.
               0.30 * max 0 (1 - calculateDistance (pickup m) (pickup request) / 5) +
               0.30 * max 0 (1 - calculateDistance (dropoff m) (dropoff request) / 5) +
               0.40 * calculateDirectionSimilarity m request)"
    by (simp add: requestScore_def Let_def mult.commute)
  ultimately show ?thesis using eq by simp
qed

lemma calculateDistance_same [simp]: "lat p = lat q \<Longrightarrow> lng p = lng q \<Longrightarrow> calculateDistance p q = 0"
  by (simp add: calculateDistance_def atan2_def)

theorem score_bounded_witness:
  "requests poolA \<noteq> [] \<and> validRequest requestA \<and> validRequest requestB \<and>
   calculateRouteCompatibility poolA requestB = 1"
proof -
  have v: "validRequest requestA" "validRequest requestB"
    by (simp_all add: validRequest_def validPoint_def requestA_def requestB_def)
  then have h: "requests poolA \<noteq> []" "\<forall>m\<in>set (requests poolA). validRequest m"
    by (simp_all add: poolA_def)
  have "calculateDirectionSimilarity requestA requestB = 1"
    by (simp add: calculateDirectionSimilarity_def requestA_def requestB_def)
  with score_bounded [OF h v(2)] have "calculateRouteCompatibility poolA requestB = 1"
    by (simp add: poolA_def requestA_def requestB_def)
  with h v show ?thesis by simp
qed

subsection \<open>Bounds on the distance\<close>

lemma arctan_le_self: "0 \<le> u \<Longrightarrow> arctan u \<le> u"
proof -
  assume u: "0 \<le> u"
  have "(\<lambda>x. x - arctan x) 0 \<le> (\<lambda>x. x - arctan x) u"
  proof (rule DERIV_nonneg_imp_nondecreasing [OF u])
    fix x :: real
    have "((\<lambda>x. x - arctan x) has_real_derivative 1 - inverse (1 + x\<^sup>2)) (at x)"
      by (auto intro!: derivative_eq_intros)
    moreover have "inverse (1 + x\<^sup>2) \<le> 1"
      by (simp add: inverse_le_1_iff)
    ultimately show "\<exists>y. ((\<lambda>x. x - arctan x) has_real_derivative y) (at x) \<and> 0 \<le> y"
      by (intro exI [of _ "1 - inverse (1 + x\<^sup>2)"]) simp
  qed
  then show ?thesis by simp
qed

text \<open>The haversine term for valid points is bounded by the squared differences in degrees.\<close>

lemma sin_sq_le: "sin x * sin x \<le> x * (x::real)"
proof -
  have "\<bar>sin x\<bar> * \<bar>sin x\<bar> \<le> \<bar>x\<bar> * \<bar>x\<bar>"
    by (intro mult_mono abs_sin_x_le_abs_x) simp_all
  then show ?thesis by (simp add: abs_mult_self_eq)
qed

lemma half_deg_sq_le: "(d * pi / 180 / 2) * (d * pi / 180 / 2) \<le> d * d / 8100"
proof -
  have "pi * pi \<le> 4 * 4" using pi_less_4 pi_ge_zero by (intro mult_mono) simp_all
  then have "(d * d) * (pi * pi) \<le> (d * d) * (4 * 4)" by (intro mult_left_mono) simp_all
  then show ?thesis by (simp add: field_simps)
qed

lemma calculateDistance_le:
  assumes "validPoint p" and "validPoint q"
    and B: "B = ((lat q - lat p) * (lat q - lat p) + (lng q - lng p) * (lng q - lng p)) / 8100"
    and "B < 1" and "0 \<le> t" and "B \<le> (1 - B) * (t * t)"
  shows "calculateDistance p q \<le> 12742 * t"
proof -
  let ?x = "(lat q - lat p) * pi / 180 / 2"
  let ?y = "(lng q - lng p) * pi / 180 / 2"
  let ?c = "cos (lat p * pi / 180) * cos (lat q * pi / 180)"
  let ?a = "sin ?x * sin ?x + ?c * sin ?y * sin ?y"
  from assms(1,2) have cq: "0 \<le> cos (lat q * pi / 180)" and c0: "0 \<le> ?c"
    by (simp_all add: validPoint_def cos_deg_nonneg)
  from cq have c1: "?c \<le> 1" by (intro mult_le_one) simp_all
  have sy: "0 \<le> sin ?y * sin ?y" by simp
  from c0 sy have "0 \<le> ?c * (sin ?y * sin ?y)" by (rule mult_nonneg_nonneg)
  then have a0: "0 \<le> ?a" by (simp add: mult.assoc)
  from c1 sy have "?c * (sin ?y * sin ?y) \<le> 1 * (sin ?y * sin ?y)" by (rule mult_right_mono)
  then have "?a \<le> sin ?x * sin ?x + sin ?y * sin ?y" by (simp add: mult.assoc)
  also have "\<dots> \<le> ?x * ?x + ?y * ?y" by (intro add_mono sin_sq_le)
  also have "\<dots> \<le> (lat q - lat p) * (lat q - lat p) / 8100 + (lng q - lng p) * (lng q - lng p) / 8100"
    by (intro add_mono half_deg_sq_le)
  also have "\<dots> = B" by (simp add: B add_divide_distrib)
  finally have aB: "?a \<le> B" .
  with \<open>B < 1\<close> have a1: "0 < 1 - ?a" by simp
  from aB have "(1 - B) * (t * t) \<le> (1 - ?a) * (t * t)" by (intro mult_right_mono) simp_all
  with aB \<open>B \<le> (1 - B) * (t * t)\<close> have "?a \<le> (1 - ?a) * (t * t)" by linarith
  with a1 have "?a / (1 - ?a) \<le> t * t" by (simp add: pos_divide_le_eq mult.commute)
  then have "sqrt (?a / (1 - ?a)) \<le> sqrt (t * t)" by (rule real_sqrt_le_mono)
  with \<open>0 \<le> t\<close> have "sqrt ?a / sqrt (1 - ?a) \<le> t" by (simp add: real_sqrt_divide)
  moreover from a0 a1 have "0 \<le> sqrt ?a / sqrt (1 - ?a)" by simp
  then have "arctan (sqrt ?a / sqrt (1 - ?a)) \<le> sqrt ?a / sqrt (1 - ?a)" by (rule arctan_le_self)
  ultimately have "arctan (sqrt ?a / sqrt (1 - ?a)) \<le> t" by linarith
  moreover from a1 have "atan2 (sqrt ?a) (sqrt (1 - ?a)) = arctan (sqrt ?a / sqrt (1 - ?a))"
    by (simp add: atan2_def)
  ultimately have "atan2 (sqrt ?a) (sqrt (1 - ?a)) \<le> t" by simp
  then show ?thesis by (simp add: calculateDistance_def Let_def)
qed

lemma distanceA_bounds:
  "0 \<le> calculateDistance (pickup requestA) (dropoff requestA) \<and>
   calculateDistance (pickup requestA) (dropoff requestA) < 4"
proof -
  have v: "validPoint (pickup requestA)" "validPoint (dropoff requestA)"
    by (simp_all add: validPoint_def requestA_def)
  have "calculateDistance (pickup requestA) (dropoff requestA) \<le> 12742 * (1 / 4000)"
    by (rule calculateDistance_le [OF v refl]) (simp_all add: requestA_def)
  with calculateDistance_nonneg [OF v] show ?thesis by simp
qed


subsection \<open>The empty pool\<close>

text \<open>
  C10. The score of a pool without members is 0: the loop makes no comparison and the
  guard \<^verbatim>\<open>comparisons > 0\<close> returns 0 instead of dividing.
\<close>

theorem calculateRouteCompatibility_no_members:
  "calculateRouteCompatibility (pool\<lparr>requests := []\<rparr>) request = 0"
  by (simp add: calculateRouteCompatibility_def)

subsection \<open>Removal\<close>

lemma findIndex_None_iff: "findIndex P xs = None \<longleftrightarrow> (\<forall>x\<in>set xs. \<not> P x)"
  by (induction xs) auto

lemma findIndex_Some_less: "findIndex P xs = Some i \<Longrightarrow> i < length xs"
  by (induction xs arbitrary: i) (auto split: if_splits)

lemma findIndex_hasRequest:
  "findIndex (\<lambda>r. id_req r = requestId) (requests pool) = None \<longleftrightarrow> \<not> hasRequest requestId pool"
  by (auto simp: findIndex_None_iff hasRequest_def)

lemma afterRemoval_fields:
  "requests (afterRemoval pool i) = splice1 i (requests pool)"
  "id_pool (afterRemoval pool i) = id_pool pool"
  "route (afterRemoval pool i) = optimizeRoute (splice1 i (requests pool))"
  "totalDistance (afterRemoval pool i) =
     calculateTotalDistance (optimizeRoute (splice1 i (requests pool)))"
  "estimatedTime (afterRemoval pool i) =
     calculateEstimatedTime (optimizeRoute (splice1 i (requests pool)))
       (length (splice1 i (requests pool)))"
  "costPerCustomer (afterRemoval pool i) =
     calculateTotalDistance (optimizeRoute (splice1 i (requests pool))) * 10 /
       real (length (splice1 i (requests pool)))"
  by (simp_all add: afterRemoval_def Let_def)

lemma removeFromPool_loop_step:
  "removeFromPool_loop ((poolId, pool) # rest) requestId ps =
     (case findIndex (\<lambda>r. id_req r = requestId) (requests pool) of
        None \<Rightarrow> removeFromPool_loop rest requestId ps
      | Some i \<Rightarrow>
          if splice1 i (requests pool) = [] then AList.delete poolId ps
          else AList.update poolId (afterRemoval pool i) ps)"
  by (simp add: afterRemoval_def Let_def split: option.split)

lemma removeFromPool_loop_absent:
  "\<forall>(k, p)\<in>set es. \<not> hasRequest requestId p \<Longrightarrow> removeFromPool_loop es requestId ps = ps"
proof (induction es)
  case Nil
  then show ?case by simp
next
  case (Cons e es)
  obtain k p where e: "e = (k, p)" by (cases e)
  from Cons.prems e have "findIndex (\<lambda>r. id_req r = requestId) (requests p) = None"
    by (simp add: findIndex_hasRequest)
  with Cons e show ?case by simp
qed

lemma removeFromPool_loop_first:
  assumes "\<forall>(k', p')\<in>set pre. \<not> hasRequest requestId p'" and "hasRequest requestId pool"
  shows "\<exists>i. findIndex (\<lambda>r. id_req r = requestId) (requests pool) = Some i \<and>
             i < length (requests pool) \<and>
             removeFromPool_loop (pre @ (poolId, pool) # post) requestId ps =
               (if splice1 i (requests pool) = [] then AList.delete poolId ps
                else AList.update poolId (afterRemoval pool i) ps)"
  using assms(1)
proof (induction pre)
  case Nil
  from assms(2) obtain i where i: "findIndex (\<lambda>r. id_req r = requestId) (requests pool) = Some i"
    using findIndex_hasRequest [of requestId pool] by (cases "findIndex (\<lambda>r. id_req r = requestId) (requests pool)") auto
  then show ?case
    by (auto simp only: append_Nil removeFromPool_loop_step option.case dest: findIndex_Some_less)
next
  case (Cons e pre)
  obtain k p where e: "e = (k, p)" by (cases e)
  from Cons.prems e have "findIndex (\<lambda>r. id_req r = requestId) (requests p) = None"
    by (simp add: findIndex_hasRequest)
  moreover from Cons.prems have "\<forall>(k', p')\<in>set pre. \<not> hasRequest requestId p'" by simp
  ultimately show ?case
    using Cons.IH e by (simp only: append_Cons removeFromPool_loop_step option.case)
qed

text \<open>Every run of the loop either leaves the map as it is, deletes one pool or replaces one.\<close>

lemma removeFromPool_loop_cases:
  "removeFromPool_loop es requestId ps = ps \<or>
   (\<exists>k p i. (k, p) \<in> set es \<and> i < length (requests p) \<and>
      removeFromPool_loop es requestId ps =
        (if splice1 i (requests p) = [] then AList.delete k ps
         else AList.update k (afterRemoval p i) ps))"
proof (induction es)
  case Nil
  then show ?case by simp
next
  case (Cons e es)
  obtain k p where e: "e = (k, p)" by (cases e)
  show ?case
  proof (cases "findIndex (\<lambda>r. id_req r = requestId) (requests p)")
    case None
    with Cons e show ?thesis by (auto simp only: removeFromPool_loop_step option.case list.set)
  next
    case (Some i)
    then have "i < length (requests p)" by (rule findIndex_Some_less)
    with Some e show ?thesis
      by (intro disjI2 exI [of _ k] exI [of _ p] exI [of _ i])
         (simp only: removeFromPool_loop_step option.case list.set, simp)
  qed
qed


subsection \<open>Invariants of the registry\<close>

lemma set_update_cases:
  "e \<in> set (AList.update k v al) \<Longrightarrow> e = (k, v) \<or> e \<in> set al"
  by (induction al) (auto split: if_splits)

lemma set_delete_subset: "set (AList.delete k al) \<subseteq> set al"
  by (auto simp: AList.delete_eq)

lemma wellFormed_update:
  "wellFormed s \<Longrightarrow> id_pool p = k \<Longrightarrow> wellFormed (s\<lparr>pools := AList.update k p (pools s)\<rparr>)"
  by (auto simp: wellFormed_def distinct_update dest!: set_update_cases)

lemma wellFormed_delete:
  "wellFormed s \<Longrightarrow> wellFormed (s\<lparr>pools := AList.delete k (pools s)\<rparr>)"
  using set_delete_subset [of k "pools s"]
  by (auto simp: wellFormed_def distinct_delete)

lemma capacityOk_update:
  "capacityOk s \<Longrightarrow> 1 \<le> length (requests p) \<Longrightarrow> length (requests p) \<le> 3 \<Longrightarrow>
   capacityOk (s\<lparr>pools := AList.update k p (pools s)\<rparr>)"
  by (auto simp: capacityOk_def getActivePools_def dest!: set_update_cases)

lemma capacityOk_delete:
  "capacityOk s \<Longrightarrow> capacityOk (s\<lparr>pools := AList.delete k (pools s)\<rparr>)"
  using set_delete_subset [of k "pools s"]
  by (auto simp: capacityOk_def getActivePools_def)

lemma wellFormed_activeRequests [simp]:
  "wellFormed (s\<lparr>activeRequests := a\<rparr>) = wellFormed s"
  by (simp add: wellFormed_def)

lemma capacityOk_activeRequests [simp]:
  "capacityOk (s\<lparr>activeRequests := a\<rparr>) = capacityOk s"
  by (simp add: capacityOk_def getActivePools_def)

lemma length_splice1_eq: "i < length xs \<Longrightarrow> length (splice1 i xs) = length xs - 1"
  by (simp add: splice1_def)

lemma removeFromPool_invariant:
  assumes "wellFormed s" and "capacityOk s"
  shows "wellFormed (removeFromPool s requestId) \<and> capacityOk (removeFromPool s requestId)"
proof -
  let ?ps = "pools s"
  let ?s = "s\<lparr>activeRequests := AList.delete requestId (activeRequests s)\<rparr>"
  have rm: "removeFromPool s requestId = ?s\<lparr>pools := removeFromPool_loop ?ps requestId ?ps\<rparr>"
    by (simp add: removeFromPool_def)
  consider (same) "removeFromPool_loop ?ps requestId ?ps = ?ps"
    | (hit) k p i where "(k, p) \<in> set ?ps" "i < length (requests p)"
        "removeFromPool_loop ?ps requestId ?ps =
           (if splice1 i (requests p) = [] then AList.delete k ?ps
            else AList.update k (afterRemoval p i) ?ps)"
    using removeFromPool_loop_cases [of ?ps requestId ?ps] by blast
  then show ?thesis
  proof cases
    case same
    with assms show ?thesis by (simp add: rm)
  next
    case hit
    from assms(1) hit(1) have idk: "id_pool p = k" by (auto simp: wellFormed_def)
    from assms(2) hit(1) have "length (requests p) \<le> 3"
      by (force simp: capacityOk_def getActivePools_def)
    with hit(2) have len: "length (splice1 i (requests p)) \<le> 3"
      by (simp add: length_splice1_eq)
    show ?thesis
    proof (cases "splice1 i (requests p) = []")
      case True
      with hit(3) have "removeFromPool s requestId = ?s\<lparr>pools := AList.delete k (pools ?s)\<rparr>"
        by (simp add: rm)
      with assms show ?thesis
        using wellFormed_delete [of ?s k] capacityOk_delete [of ?s k] by simp
    next
      case False
      with hit(3) have eq: "removeFromPool s requestId =
          ?s\<lparr>pools := AList.update k (afterRemoval p i) (pools ?s)\<rparr>"
        by (simp add: rm)
      from False have "1 \<le> length (requests (afterRemoval p i))"
        by (cases "splice1 i (requests p)") (simp_all add: afterRemoval_fields)
      with assms idk len show ?thesis
        using wellFormed_update [of ?s "afterRemoval p i" k]
          capacityOk_update [of ?s "afterRemoval p i" k]
        by (simp add: eq afterRemoval_fields)
    qed
  qed
qed

text \<open>A pool that the matcher returns is one of the registry and is not full.\<close>

lemma findMatchingPool_loop_Some:
  "findMatchingPool_loop ps request = Some pool \<Longrightarrow> pool \<in> set ps \<and> length (requests pool) < 3"
  by (induction ps) (auto simp: Let_def split: if_splits)

lemma addToExistingPool_invariant:
  assumes "wellFormed s" and "capacityOk s" and "(k, pool) \<in> set (pools s)"
    and "length (requests pool) < 3" and "addToExistingPool s k request = Inr (s', poolId)"
  shows "wellFormed s' \<and> capacityOk s'"
proof -
  from assms(1,3) have m: "map_of (pools s) k = Some pool" and idk: "id_pool pool = k"
    by (auto simp: wellFormed_def)
  from assms(5) m obtain p' where s': "s' = s\<lparr>pools := AList.update k p' (pools s)\<rparr>"
    and p': "requests p' = requests pool @ [request]" "id_pool p' = id_pool pool"
    by (auto simp: addToExistingPool_def Let_def)
  with assms(1,2,4) idk show ?thesis
    using wellFormed_update [of s p' k] capacityOk_update [of s p' k] by simp
qed

lemma createNewPool_invariant:
  assumes "wellFormed s" and "capacityOk s"
  shows "wellFormed (fst (createNewPool s newPoolId request)) \<and>
         capacityOk (fst (createNewPool s newPoolId request))"
  using assms
  by (simp add: createNewPool_def wellFormed_update capacityOk_update)

lemma addPoolRequest_invariant:
  assumes "wellFormed s" and "capacityOk s" and "addPoolRequest s newPoolId request = Inr (s', poolId)"
  shows "wellFormed s' \<and> capacityOk s'"
proof -
  let ?s = "s\<lparr>activeRequests := AList.update (id_req request) request (activeRequests s)\<rparr>"
  from assms(1,2) have inv: "wellFormed ?s" "capacityOk ?s" by simp_all
  show ?thesis
  proof (cases "findMatchingPool ?s request")
    case None
    with assms(3) have "s' = fst (createNewPool ?s newPoolId request)"
      by (auto simp: addPoolRequest_def Let_def)
    with inv show ?thesis using createNewPool_invariant [of ?s newPoolId request] by simp
  next
    case (Some m)
    then have "m \<in> set (map snd (pools ?s))" and len: "length (requests m) < 3"
      using findMatchingPool_loop_Some [of "map snd (pools ?s)" request m]
      by (simp_all add: findMatchingPool_def)
    then obtain k where k: "(k, m) \<in> set (pools ?s)" by auto
    with inv(1) have "id_pool m = k" by (auto simp: wellFormed_def)
    with Some assms(3) have "addToExistingPool ?s k request = Inr (s', poolId)"
      by (simp add: addPoolRequest_def Let_def)
    with inv k len show ?thesis by (rule addToExistingPool_invariant)
  qed
qed

lemma run_invariant:
  "wellFormed s \<Longrightarrow> capacityOk s \<Longrightarrow> run s ops = Inr s' \<Longrightarrow> wellFormed s' \<and> capacityOk s'"
proof (induction ops arbitrary: s)
  case Nil
  then show ?case by simp
next
  case (Cons op ops)
  show ?case
  proof (cases op)
    case (AddRequest newPoolId request)
    with Cons.prems(3) obtain s1 poolId where
      a: "addPoolRequest s newPoolId request = Inr (s1, poolId)" and r: "run s1 ops = Inr s'"
      by (auto split: sum.splits)
    from Cons.prems(1,2) a have "wellFormed s1 \<and> capacityOk s1" by (rule addPoolRequest_invariant)
    with r show ?thesis using Cons.IH by blast
  next
    case (RemoveRequest requestId)
    with Cons.prems(3) have r: "run (removeFromPool s requestId) ops = Inr s'" by simp
    from Cons.prems(1,2) have "wellFormed (removeFromPool s requestId) \<and>
        capacityOk (removeFromPool s requestId)" by (rule removeFromPool_invariant)
    with r show ?thesis using Cons.IH by blast
  qed
qed

lemma emptyService_invariant: "wellFormed emptyService \<and> capacityOk emptyService"
  by (simp add: wellFormed_def capacityOk_def emptyService_def getActivePools_def)

lemma run_total: "\<exists>s'. run s ops = Inr s'"
proof (induction ops arbitrary: s)
  case Nil
  then show ?case by simp
next
  case (Cons op ops)
  then show ?case by (cases op) (simp_all add: addPoolRequest_creates createNewPool_def)
qed


subsection \<open>Capacity\<close>

lemma membership_AB: "membership serviceAB = [(''pool_1'', [''req_1'', ''req_2''])]"
  by (simp add: serviceAB_def serviceA_def poolA_def addToExistingPool_def Let_def
      membership_def requestA_def requestB_def)

lemma membership_ABC: "membership serviceABC = [(''pool_1'', [''req_1'', ''req_2'', ''req_3''])]"
  by (simp add: serviceABC_def serviceAB_def serviceA_def poolA_def addToExistingPool_def
      Let_def membership_def requestA_def requestB_def requestC_def)

text \<open>
  C8. Every sequence of \<^verbatim>\<open>addPoolRequest\<close> and \<^verbatim>\<open>removeFromPool\<close> calls on the empty
  service runs to its end, and in the registry it reaches every pool has between one
  and three members. A request that arrives while a pool has three members leaves that
  pool as it is and ends up in a pool of its own (the id of the new pool being fresh).
\<close>

theorem capacity_invariant:
  "(\<exists>s. run emptyService ops = Inr s \<and> capacityOk s) \<and>
   (map_of (pools s0) poolId = Some pool \<and> length (requests pool) = 3 \<and> newPoolId \<noteq> poolId \<longrightarrow>
      (\<exists>s' p. addPoolRequest s0 newPoolId request = Inr (s', newPoolId) \<and>
         getPool s' poolId = Some pool \<and>
         getPool s' newPoolId = Some p \<and> requests p = [request]))"
proof (intro conjI impI)
  obtain s where s: "run emptyService ops = Inr s" using run_total by blast
  with emptyService_invariant have "capacityOk s" using run_invariant by blast
  with s show "\<exists>s. run emptyService ops = Inr s \<and> capacityOk s" by blast
next
  assume "map_of (pools s0) poolId = Some pool \<and> length (requests pool) = 3 \<and> newPoolId \<noteq> poolId"
  then show "\<exists>s' p. addPoolRequest s0 newPoolId request = Inr (s', newPoolId) \<and>
         getPool s' poolId = Some pool \<and>
         getPool s' newPoolId = Some p \<and> requests p = [request]"
    by (auto simp: addPoolRequest_creates createNewPool_def getPool_def update_conv')
qed

theorem capacity_invariant_witness:
  "(\<exists>s. run emptyService
           [AddRequest ''pool_1'' requestA, AddRequest ''pool_2'' requestB,
            RemoveRequest ''req_1'', AddRequest ''pool_3'' requestC] = Inr s \<and>
        membership s = [(''pool_2'', [''req_2'']), (''pool_3'', [''req_3''])] \<and> capacityOk s) \<and>
   membership serviceABC = [(''pool_1'', [''req_1'', ''req_2'', ''req_3''])] \<and>
   (\<exists>s'. addPoolRequest serviceABC ''pool_2'' requestD = Inr (s', ''pool_2'') \<and>
      membership s' = [(''pool_1'', [''req_1'', ''req_2'', ''req_3'']), (''pool_2'', [''req_4''])])"
proof -
  let ?ops = "[AddRequest ''pool_1'' requestA, AddRequest ''pool_2'' requestB,
            RemoveRequest ''req_1'', AddRequest ''pool_3'' requestC]"
  obtain pool where pool: "pools serviceABC = [(''pool_1'', pool)]"
    and len: "length (requests pool) = 3"
    by (simp add: serviceABC_def serviceAB_def serviceA_def poolA_def addToExistingPool_def Let_def)
  then have h: "map_of (pools serviceABC) ''pool_1'' = Some pool \<and> length (requests pool) = 3 \<and>
      ''pool_2'' \<noteq> ''pool_1''" by simp
  note inst = capacity_invariant [of ?ops serviceABC "''pool_1''" pool "''pool_2''" requestD]
  from inst obtain s where s: "run emptyService ?ops = Inr s" "capacityOk s" by blast
  from s(1) have m: "membership s = [(''pool_2'', [''req_2'']), (''pool_3'', [''req_3''])]"
    by (auto simp: addPoolRequest_creates createNewPool_def emptyService_def membership_def
        removeFromPool_def requestA_def requestB_def requestC_def splice1_def)
  from inst h obtain s' p where s': "addPoolRequest serviceABC ''pool_2'' requestD = Inr (s', ''pool_2'')"
    "getPool s' ''pool_1'' = Some pool" "getPool s' ''pool_2'' = Some p" "requests p = [requestD]"
    by blast
  from s'(1) have "membership s' = membership serviceABC @ [(''pool_2'', [''req_4''])]"
    using pool by (auto simp: addPoolRequest_creates createNewPool_def membership_def requestD_def requestA_def)
  with s s' m show ?thesis by (simp add: membership_ABC)
qed


subsection \<open>A new pool\<close>

lemma distance_bare [simp]:
  "calculateDistance (bare p) (bare q) = calculateDistance p q"
  by (simp add: calculateDistance_def bare_def)

lemma optimizeRoute_single: "optimizeRoute [r] = [bare (pickup r), bare (dropoff r)]"
  by (simp add: optimizeRoute_def)

lemma spec_totalDistance_single:
  "spec_totalDistance [r] = calculateDistance (pickup r) (dropoff r)"
  by (simp add: spec_totalDistance_def optimizeRoute_single)

text \<open>
  C4, as stated, fails on Scenario A: the new pool carries the base cost 100, and
  \<open>50 + distance * 10\<close> is below 90 for these two points.
\<close>

theorem scenario_A_cost_counterexample:
  "addPoolRequest emptyService ''pool_1'' requestA = Inr (serviceA, ''pool_1'') \<and>
   getPool serviceA ''pool_1'' = Some poolA \<and>
   costPerCustomer poolA = 100 \<and>
   costPerCustomer poolA \<noteq> 50 + calculateDistance (pickup requestA) (dropoff requestA) * 10"
proof -
  have "addPoolRequest emptyService ''pool_1'' requestA = Inr (serviceA, ''pool_1'')"
    by (simp add: addPoolRequest_creates serviceA_def poolA_def createNewPool_def
        emptyService_def requestA_def)
  moreover have "getPool serviceA ''pool_1'' = Some poolA"
    by (simp add: getPool_def serviceA_def)
  moreover have "costPerCustomer poolA = 100" by (simp add: poolA_def)
  moreover have "50 + calculateDistance (pickup requestA) (dropoff requestA) * 10 < 100"
    using distanceA_bounds by simp
  ultimately show ?thesis by simp
qed

text \<open>
  C4, amended. A request added to the empty service gives one pool with this request
  as its only member, the route \<open>[pickup, dropoff]\<close>, savings 0 and the placeholder
  cost per customer 100.
\<close>

theorem new_pool_fields:
  "\<exists>s pool. addPoolRequest emptyService newPoolId request = Inr (s, newPoolId) \<and>
      getActivePools s = [pool] \<and> getPool s newPoolId = Some pool \<and>
      requests pool = [request] \<and>
      route pool = [bare (pickup request), bare (dropoff request)] \<and>
      savings pool = 0 \<and> costPerCustomer pool = 100"
  by (simp add: addPoolRequest_creates createNewPool_def emptyService_def getActivePools_def
      getPool_def)

subsection \<open>Joining a pool\<close>

lemma distance_tagged [simp]:
  "calculateDistance (tagged p t i) (tagged q u j) = calculateDistance p q"
  by (simp add: calculateDistance_def tagged_def)

lemma optimizeRoute_AB:
  "optimizeRoute [requestA, requestB] =
     [tagged (pickup requestA) pickup_stop ''req_1'', tagged (pickup requestB) pickup_stop ''req_2'',
      tagged (dropoff requestA) dropoff_stop ''req_1'', tagged (dropoff requestB) dropoff_stop ''req_2'']"
proof -
  have d: "dropoff requestB = dropoff requestA" "pickup requestB = pickup requestA"
    "id_req requestA = ''req_1''" "id_req requestB = ''req_2''"
    "createdAt requestA = 1000" "createdAt requestB = 2000"
    by (simp_all add: requestA_def requestB_def)
  show ?thesis
    by (simp add: optimizeRoute_def d dropoff_loop.simps nearest_loop.simps splice1_def)
qed

lemma totalDistance_AB:
  "calculateTotalDistance (optimizeRoute [requestA, requestB]) =
     calculateDistance (pickup requestA) (dropoff requestA)"
proof -
  have d: "dropoff requestB = dropoff requestA" "pickup requestB = pickup requestA"
    by (simp_all add: requestA_def requestB_def)
  show ?thesis by (simp add: optimizeRoute_AB d)
qed


lemma addToExistingPool_step:
  "addToExistingPool s poolId request =
     (case map_of (pools s) poolId of
        None \<Rightarrow> Inl PoolNotFound
      | Some pool \<Rightarrow>
          Inr (s\<lparr>pools := AList.update poolId (afterJoin pool request) (pools s)\<rparr>, poolId))"
  by (simp add: addToExistingPool_def afterJoin_def Let_def split: option.split)

lemma afterJoin_fields:
  "id_pool (afterJoin pool request) = id_pool pool"
  "requests (afterJoin pool request) = requests pool @ [request]"
  "route (afterJoin pool request) = optimizeRoute (requests pool @ [request])"
  "totalDistance (afterJoin pool request) =
     calculateTotalDistance (optimizeRoute (requests pool @ [request]))"
  "estimatedTime (afterJoin pool request) =
     calculateEstimatedTime (optimizeRoute (requests pool @ [request]))
       (length (requests pool) + 1)"
  "costPerCustomer (afterJoin pool request) =
     (50 + (calculateTotalDistance (optimizeRoute (requests pool @ [request])) + 2) * 10) /
       real (length (requests pool) + 1 + 1)"
  by (simp_all add: afterJoin_def Let_def calculatePoolCost_def)

lemma addToExistingPool_found:
  assumes "map_of (pools s) poolId = Some pool"
  shows "\<exists>p'. addToExistingPool s poolId request =
             Inr (s\<lparr>pools := AList.update poolId p' (pools s)\<rparr>, poolId) \<and>
           id_pool p' = id_pool pool \<and>
           requests p' = requests pool @ [request] \<and>
           route p' = optimizeRoute (requests p') \<and>
           totalDistance p' = calculateTotalDistance (route p') \<and>
           estimatedTime p' = calculateEstimatedTime (route p') (length (requests p')) \<and>
           costPerCustomer p' =
             (50 + (totalDistance p' + 2) * 10) / real (length (requests p') + 1)"
  using assms
  by (intro exI [of _ "afterJoin pool request"])
     (simp add: addToExistingPool_step afterJoin_fields)

lemma serviceAB_pool:
  "\<exists>pool. addToExistingPool serviceA ''pool_1'' requestB = Inr (serviceAB, ''pool_1'') \<and>
      pools serviceAB = [(''pool_1'', pool)] \<and>
      requests pool = [requestA, requestB] \<and>
      route pool = optimizeRoute (requests pool) \<and>
      totalDistance pool = calculateTotalDistance (route pool) \<and>
      costPerCustomer pool = (50 + (totalDistance pool + 2) * 10) / 3"
proof -
  have m: "map_of (pools serviceA) ''pool_1'' = Some poolA" by (simp add: serviceA_def)
  from addToExistingPool_found [OF m, of requestB] obtain p' where
    a: "addToExistingPool serviceA ''pool_1'' requestB =
          Inr (serviceA\<lparr>pools := AList.update ''pool_1'' p' (pools serviceA)\<rparr>, ''pool_1'')"
    and f: "requests p' = requests poolA @ [requestB]" "route p' = optimizeRoute (requests p')"
      "totalDistance p' = calculateTotalDistance (route p')"
      "costPerCustomer p' = (50 + (totalDistance p' + 2) * 10) / real (length (requests p') + 1)"
    by blast
  from a have ab: "serviceAB = serviceA\<lparr>pools := AList.update ''pool_1'' p' (pools serviceA)\<rparr>"
    by (simp add: serviceAB_def)
  have "pools serviceAB = [(''pool_1'', p')]" by (simp add: ab serviceA_def)
  moreover from f(1) have r: "requests p' = [requestA, requestB]" by (simp add: poolA_def)
  moreover from f(4) r have "costPerCustomer p' = (50 + (totalDistance p' + 2) * 10) / 3" by simp
  ultimately show ?thesis using a ab f(2,3) by auto
qed

text \<open>
  C1. The join path at Scenario B: \<^verbatim>\<open>addToExistingPool\<close> puts \<open>requestB\<close> into the
  pool of \<open>requestA\<close>. The pool then has two members, and its cost per customer is
  \<open>(50 + (totalDistance + 2) * 10) / 3\<close>: \<^verbatim>\<open>calculatePoolCost\<close> adds the estimated 2 km
  and one more member although the request is already in \<^verbatim>\<open>pool.requests\<close>. The claim
  gives \<open>(50 + totalDistance * 10) / 2\<close>.
\<close>

theorem join_cost_scenario_B:
  "\<exists>pool. addToExistingPool serviceA ''pool_1'' requestB = Inr (serviceAB, ''pool_1'') \<and>
      getPool serviceAB ''pool_1'' = Some pool \<and>
      requests pool = [requestA, requestB] \<and>
      totalDistance pool = calculateTotalDistance (optimizeRoute (requests pool)) \<and>
      costPerCustomer pool = (50 + (totalDistance pool + 2) * 10) / 3 \<and>
      costPerCustomer pool \<noteq> (50 + totalDistance pool * 10) / 2"
proof -
  from serviceAB_pool obtain pool where
    a: "addToExistingPool serviceA ''pool_1'' requestB = Inr (serviceAB, ''pool_1'')"
    and p: "pools serviceAB = [(''pool_1'', pool)]"
    and r: "requests pool = [requestA, requestB]"
    and f: "route pool = optimizeRoute (requests pool)"
      "totalDistance pool = calculateTotalDistance (route pool)"
      "costPerCustomer pool = (50 + (totalDistance pool + 2) * 10) / 3"
    by blast
  from f(1,2) r have t: "totalDistance pool = calculateDistance (pickup requestA) (dropoff requestA)"
    by (simp add: totalDistance_AB)
  with distanceA_bounds have "0 \<le> totalDistance pool" by simp
  with f(3) have "costPerCustomer pool \<noteq> (50 + totalDistance pool * 10) / 2" by simp
  moreover from p have "getPool serviceAB ''pool_1'' = Some pool" by (simp add: getPool_def)
  ultimately show ?thesis using a r f by auto
qed

subsection \<open>Route optimizer\<close>

lemma firstMinIndex_unique:
  assumes "firstMinIndex c ds i" and "firstMinIndex c ds k"
  shows "i = k"
proof (rule ccontr)
  assume "i \<noteq> k"
  then consider "i < k" | "k < i" by linarith
  then show False
  proof cases
    case 1
    with assms(2) have "calculateDistance c (ds ! k) < calculateDistance c (ds ! i)"
      by (simp add: firstMinIndex_def)
    moreover from assms have "calculateDistance c (ds ! i) \<le> calculateDistance c (ds ! k)"
      by (simp add: firstMinIndex_def)
    ultimately show False by simp
  next
    case 2
    with assms(1) have "calculateDistance c (ds ! i) < calculateDistance c (ds ! k)"
      by (simp add: firstMinIndex_def)
    moreover from assms have "calculateDistance c (ds ! k) \<le> calculateDistance c (ds ! i)"
      by (simp add: firstMinIndex_def)
    ultimately show False by simp
  qed
qed

lemma spec_nearest_index_firstMin:
  assumes "ds \<noteq> []"
  shows "firstMinIndex c ds (spec_nearest_index c ds)"
proof -
  let ?m = "Min (set (map (calculateDistance c) ds))"
  let ?P = "\<lambda>d. calculateDistance c d \<noteq> ?m"
  let ?i = "length (takeWhile ?P ds)"
  have i: "spec_nearest_index c ds = ?i" by (simp add: spec_nearest_index_def Let_def)
  from spec_nearest_index_less [OF assms, of c] have less: "?i < length ds" by (simp add: i)
  then have at: "calculateDistance c (ds ! ?i) = ?m"
    using nth_length_takeWhile [of ?P ds] by simp
  have le: "?m \<le> calculateDistance c (ds ! j)" if "j < length ds" for j
    using that by (intro Min_le) simp_all
  have before: "calculateDistance c (ds ! j) \<noteq> ?m" if "j < ?i" for j
  proof -
    from that have "takeWhile ?P ds ! j \<in> set (takeWhile ?P ds)" by (rule nth_mem)
    then have "?P (takeWhile ?P ds ! j)" by (rule set_takeWhileD [THEN conjunct2])
    with that show ?thesis by (simp add: takeWhile_nth)
  qed
  have "?m < calculateDistance c (ds ! j)" if "j < ?i" for j
  proof -
    from that less have "j < length ds" by linarith
    from le [OF this] before [OF that] show ?thesis by linarith
  qed
  with less at le show ?thesis by (simp add: firstMinIndex_def i)
qed

lemma nearest_loop_firstMin:
  assumes "n < i" and "i \<le> length ds" and "d = calculateDistance c (ds ! n)"
    and "\<forall>j<i. calculateDistance c (ds ! n) \<le> calculateDistance c (ds ! j)"
    and "\<forall>j<n. calculateDistance c (ds ! n) < calculateDistance c (ds ! j)"
  shows "firstMinIndex c ds (nearest_loop c ds i n d)"
  using assms
proof (induction c ds i n d rule: nearest_loop.induct)
  case (1 c ds i n d)
  show ?case
  proof (cases "i < length ds")
    case False
    with 1(4) have "i = length ds" by simp
    with False 1(3,5,6,7) show ?thesis
      by (subst nearest_loop.simps) (simp add: firstMinIndex_def)
  next
    case True
    show ?thesis
    proof (cases "calculateDistance c (ds ! i) < d")
      case less: True
      have a: "\<forall>j<i + 1. calculateDistance c (ds ! i) \<le> calculateDistance c (ds ! j)"
      proof (intro allI impI)
        fix j assume "j < i + 1"
        then consider "j < i" | "j = i" by linarith
        then show "calculateDistance c (ds ! i) \<le> calculateDistance c (ds ! j)"
        proof cases
          case 1
          with \<open>\<forall>j<i. calculateDistance c (ds ! n) \<le> calculateDistance c (ds ! j)\<close>
          have "calculateDistance c (ds ! n) \<le> calculateDistance c (ds ! j)" by simp
          with less \<open>d = calculateDistance c (ds ! n)\<close> show ?thesis by simp
        qed simp
      qed
      have b: "\<forall>j<i. calculateDistance c (ds ! i) < calculateDistance c (ds ! j)"
      proof (intro allI impI)
        fix j assume "j < i"
        with \<open>\<forall>j<i. calculateDistance c (ds ! n) \<le> calculateDistance c (ds ! j)\<close>
        have "calculateDistance c (ds ! n) \<le> calculateDistance c (ds ! j)" by simp
        with less \<open>d = calculateDistance c (ds ! n)\<close>
        show "calculateDistance c (ds ! i) < calculateDistance c (ds ! j)" by simp
      qed
      from True have "i + 1 \<le> length ds" by simp
      with 1(1) [OF True less _ _ refl a b]
      have "firstMinIndex c ds
              (nearest_loop c ds (i + 1) i (calculateDistance c (ds ! i)))" by simp
      with True less show ?thesis by (subst nearest_loop.simps) simp
    next
      case geq: False
      have a: "\<forall>j<i + 1. calculateDistance c (ds ! n) \<le> calculateDistance c (ds ! j)"
      proof (intro allI impI)
        fix j assume "j < i + 1"
        then consider "j < i" | "j = i" by linarith
        then show "calculateDistance c (ds ! n) \<le> calculateDistance c (ds ! j)"
        proof cases
          case 1
          with \<open>\<forall>j<i. calculateDistance c (ds ! n) \<le> calculateDistance c (ds ! j)\<close>
          show ?thesis by simp
        next
          case 2
          with geq \<open>d = calculateDistance c (ds ! n)\<close> show ?thesis by simp
        qed
      qed
      from True 1(3) have "n < i + 1" "i + 1 \<le> length ds" by simp_all
      from 1(2) [OF True geq this 1(5) a 1(7)]
      have "firstMinIndex c ds (nearest_loop c ds (i + 1) n d)" .
      with True geq show ?thesis by (subst nearest_loop.simps) simp
    qed
  qed
qed

lemma nearest_loop_spec:
  assumes "ds \<noteq> []"
  shows "nearest_loop c ds 1 0 (calculateDistance c (ds ! 0)) = spec_nearest_index c ds"
proof -
  from assms have "1 \<le> length ds" by (cases ds) simp_all
  then have "firstMinIndex c ds (nearest_loop c ds 1 0 (calculateDistance c (ds ! 0)))"
    by (intro nearest_loop_firstMin) simp_all
  moreover have "firstMinIndex c ds (spec_nearest_index c ds)"
    using assms by (rule spec_nearest_index_firstMin)
  ultimately show ?thesis by (rule firstMinIndex_unique)
qed

lemma dropoff_loop_spec: "dropoff_loop c ds acc = acc @ spec_dropoffs c ds"
proof (induction c ds acc rule: dropoff_loop.induct)
  case (1 c ds acc)
  show ?case
  proof (cases "ds = []")
    case True
    then show ?thesis
      by (subst dropoff_loop.simps, subst spec_dropoffs.simps) simp
  next
    case False
    then have len: "0 < length ds" by simp
    note n = nearest_loop_spec [OF False, of c]
    from 1 [OF len] have "dropoff_loop (ds ! spec_nearest_index c ds)
        (splice1 (spec_nearest_index c ds) ds) (acc @ [ds ! spec_nearest_index c ds]) =
      (acc @ [ds ! spec_nearest_index c ds]) @
        spec_dropoffs (ds ! spec_nearest_index c ds) (splice1 (spec_nearest_index c ds) ds)"
      by (simp only: n)
    moreover from n have "nearest_loop c ds (Suc 0) 0 (calculateDistance c (ds ! 0)) =
        spec_nearest_index c ds" by simp
    ultimately show ?thesis using False len
      by (subst dropoff_loop.simps, subst spec_dropoffs.simps) simp
  qed
qed


text \<open>
  The route in exact arithmetic (the property of C5, which fails in doubles when the
  distance to the first remaining dropoff is NaN: the strict comparison then never
  replaces index 0). For more than one request, the route is the pickups of all
  requests in ascending order of creation time (a sorted, stable rearrangement of the
  requests), followed by the dropoffs in nearest-neighbour order by the real-valued
  distance, starting from the last pickup, where among several dropoffs at minimum
  distance the first in array order is taken.
\<close>

theorem optimizeRoute_pickups_then_nearest_dropoffs:
  assumes "1 < length reqs"
  shows "\<exists>ps. mset ps = mset reqs \<and> sorted (map createdAt ps) \<and>
           (\<forall>t. filter (\<lambda>r. createdAt r = t) ps = filter (\<lambda>r. createdAt r = t) reqs) \<and>
           optimizeRoute reqs =
             map pickupStopOf ps @ spec_dropoffs (pickupStopOf (last ps)) (map dropoffStopOf reqs)"
proof -
  let ?ps = "sort_key createdAt reqs"
  from assms have ne: "?ps \<noteq> []" by (cases reqs) simp_all
  then have l: "last (map pickupStopOf ?ps) = pickupStopOf (last ?ps)" by (rule last_map)
  have pk: "(\<lambda>request. tagged (pickup request) pickup_stop (id_req request)) = pickupStopOf"
    and dk: "(\<lambda>r. tagged (dropoff r) dropoff_stop (id_req r)) = dropoffStopOf"
    by (simp_all add: fun_eq_iff pickupStopOf_def dropoffStopOf_def)
  from assms ne have "optimizeRoute reqs =
      dropoff_loop (last (map pickupStopOf ?ps)) (map dropoffStopOf reqs) (map pickupStopOf ?ps)"
    by (simp add: optimizeRoute_def Let_def pk dk)
  then have "optimizeRoute reqs =
      map pickupStopOf ?ps @ spec_dropoffs (pickupStopOf (last ?ps)) (map dropoffStopOf reqs)"
    by (simp only: dropoff_loop_spec l)
  moreover have "mset ?ps = mset reqs" by simp
  moreover have "sorted (map createdAt ?ps)" by simp
  moreover have "\<forall>t. filter (\<lambda>r. createdAt r = t) ?ps = filter (\<lambda>r. createdAt r = t) reqs"
    by (simp add: sort_key_stable)
  ultimately show ?thesis by blast
qed

lemma mset_two:
  assumes "mset ps = mset [a, b]"
  shows "ps = [a, b] \<or> ps = [b, a]"
proof -
  from assms have "length ps = length [a, b]" by (rule mset_eq_length)
  then obtain x y where ps: "ps = [x, y]"
    by (cases ps; cases "tl ps") auto
  with assms show ?thesis by (auto simp: add_eq_conv_ex)
qed

theorem optimizeRoute_pickups_then_nearest_dropoffs_witness:
  "1 < length [requestA, requestB] \<and>
   optimizeRoute [requestA, requestB] =
     [pickupStopOf requestA, pickupStopOf requestB, dropoffStopOf requestA, dropoffStopOf requestB] \<and>
   spec_dropoffs (pickupStopOf requestB) [dropoffStopOf requestA, dropoffStopOf requestB] =
     [dropoffStopOf requestA, dropoffStopOf requestB] \<and>
   calculateDistance (pickupStopOf requestB) (dropoffStopOf requestA) =
     calculateDistance (pickupStopOf requestB) (dropoffStopOf requestB)"
proof -
  have len: "1 < length [requestA, requestB]" by simp
  have ids: "id_req requestA = ''req_1''" "id_req requestB = ''req_2''"
    "createdAt requestA = 1000" "createdAt requestB = 2000"
    "dropoff requestB = dropoff requestA" "pickup requestB = pickup requestA"
    by (simp_all add: requestA_def requestB_def)
  from optimizeRoute_pickups_then_nearest_dropoffs [OF len] obtain ps where
    m: "mset ps = mset [requestA, requestB]" and so: "sorted (map createdAt ps)"
    and eq: "optimizeRoute [requestA, requestB] =
      map pickupStopOf ps @
      spec_dropoffs (pickupStopOf (last ps)) (map dropoffStopOf [requestA, requestB])"
    by blast
  from m have "ps = [requestA, requestB] \<or> ps = [requestB, requestA]" by (rule mset_two)
  with so have ps: "ps = [requestA, requestB]" by (auto simp: ids)
  have r: "optimizeRoute [requestA, requestB] =
     [pickupStopOf requestA, pickupStopOf requestB, dropoffStopOf requestA, dropoffStopOf requestB]"
    by (simp add: optimizeRoute_AB pickupStopOf_def dropoffStopOf_def ids)
  with eq ps have "spec_dropoffs (pickupStopOf requestB) [dropoffStopOf requestA, dropoffStopOf requestB] =
     [dropoffStopOf requestA, dropoffStopOf requestB]" by simp
  moreover have "calculateDistance (pickupStopOf requestB) (dropoffStopOf requestA) =
     calculateDistance (pickupStopOf requestB) (dropoffStopOf requestB)"
    by (simp add: pickupStopOf_def dropoffStopOf_def ids)
  ultimately show ?thesis using r by simp
qed


subsection \<open>Derived fields and membership\<close>

text \<open>
  C3, as stated, fails on Scenario A: the pool that \<^verbatim>\<open>addPoolRequest\<close> creates has the
  placeholders 30 and 100 as estimated time and cost per customer, not the values
  of the allocator for its membership.
\<close>

theorem placeholder_fields_counterexample:
  "addPoolRequest emptyService ''pool_1'' requestA = Inr (serviceA, ''pool_1'') \<and>
   getPool serviceA ''pool_1'' = Some poolA \<and> requests poolA = [requestA] \<and>
   estimatedTime poolA \<noteq> spec_estimatedTime (requests poolA) \<and>
   costPerCustomer poolA \<noteq> spec_costPerCustomer (requests poolA)"
proof -
  have "addPoolRequest emptyService ''pool_1'' requestA = Inr (serviceA, ''pool_1'')"
    by (simp add: addPoolRequest_creates serviceA_def poolA_def createNewPool_def
        emptyService_def requestA_def)
  moreover have "getPool serviceA ''pool_1'' = Some poolA"
    by (simp add: getPool_def serviceA_def)
  moreover have r: "requests poolA = [requestA]" by (simp add: poolA_def)
  moreover have "spec_estimatedTime [requestA] < 30"
    using distanceA_bounds by (simp add: spec_estimatedTime_def spec_totalDistance_single)
  then have "estimatedTime poolA \<noteq> spec_estimatedTime (requests poolA)"
    by (simp add: r) (simp add: poolA_def)
  moreover have "spec_costPerCustomer [requestA] < 100"
    using distanceA_bounds by (simp add: spec_costPerCustomer_def spec_totalDistance_single)
  then have "costPerCustomer poolA \<noteq> spec_costPerCustomer (requests poolA)"
    by (simp add: r) (simp add: poolA_def)
  ultimately show ?thesis by simp
qed


lemma update_middle:
  "k \<notin> fst ` set pre \<Longrightarrow> AList.update k v (pre @ (k, v0) # post) = pre @ (k, v) # post"
  by (induction pre) auto

lemma findIndex_append_last:
  "\<forall>x\<in>set xs. \<not> P x \<Longrightarrow> P y \<Longrightarrow> findIndex P (xs @ [y]) = Some (length xs)"
  by (induction xs) simp_all

lemma splice1_last: "splice1 (length xs) (xs @ [y]) = xs"
  by (simp add: splice1_def)

lemma findMatchingPool_activeRequests [simp]:
  "findMatchingPool (s\<lparr>activeRequests := a\<rparr>) request = findMatchingPool s request"
  by (simp add: findMatchingPool_def)

lemma spec_estimatedTime_eq:
  "calculateEstimatedTime (optimizeRoute members) (length members) = spec_estimatedTime members"
  by (simp add: calculateEstimatedTime_def spec_estimatedTime_def spec_totalDistance_def Let_def)

lemma join_fields:
  assumes "map_of (pools s) k = Some pool0"
  shows "\<exists>s' pool. addToExistingPool s k request = Inr (s', k) \<and>
           getPool s' k = Some pool \<and>
           requests pool = requests pool0 @ [request] \<and>
           route pool = optimizeRoute (requests pool) \<and>
           totalDistance pool = spec_totalDistance (requests pool) \<and>
           estimatedTime pool = spec_estimatedTime (requests pool)"
proof -
  let ?p = "afterJoin pool0 request"
  let ?s = "s\<lparr>pools := AList.update k ?p (pools s)\<rparr>"
  from assms have "addToExistingPool s k request = Inr (?s, k)"
    by (simp add: addToExistingPool_step)
  moreover have "getPool ?s k = Some ?p" by (simp add: getPool_def update_conv')
  moreover have "requests ?p = requests pool0 @ [request]"
    "route ?p = optimizeRoute (requests ?p)"
    "totalDistance ?p = spec_totalDistance (requests ?p)"
    by (simp_all add: afterJoin_fields spec_totalDistance_def)
  moreover have "estimatedTime ?p = spec_estimatedTime (requests ?p)"
    using spec_estimatedTime_eq [of "requests pool0 @ [request]"]
    by (simp add: afterJoin_fields)
  ultimately show ?thesis by blast
qed

lemma add_fields:
  assumes "wellFormed s"
  shows "\<exists>s' poolId pool. addPoolRequest s newPoolId request = Inr (s', poolId) \<and>
           getPool s' poolId = Some pool \<and>
           route pool = optimizeRoute (requests pool) \<and>
           totalDistance pool = spec_totalDistance (requests pool) \<and>
           (findMatchingPool s request = None \<and> poolId = newPoolId \<and>
              requests pool = [request] \<and> estimatedTime pool = 30 \<and>
              costPerCustomer pool = 100 \<or>
            (\<exists>m. findMatchingPool s request = Some m \<and> poolId = id_pool m \<and>
               requests pool = requests m @ [request] \<and>
               estimatedTime pool = spec_estimatedTime (requests pool)))"
proof (cases "findMatchingPool s request")
  case None
  let ?s1 = "s\<lparr>activeRequests := AList.update (id_req request) request (activeRequests s)\<rparr>"
  let ?p = "\<lparr>id_pool = newPoolId, requests = [request],
             route = [bare (pickup request), bare (dropoff request)],
             totalDistance = calculateDistance (pickup request) (dropoff request),
             estimatedTime = 30, costPerCustomer = 100, savings = 0\<rparr>"
  let ?s' = "?s1\<lparr>pools := AList.update newPoolId ?p (pools ?s1)\<rparr>"
  from None have "addPoolRequest s newPoolId request = Inr (?s', newPoolId)"
    by (simp add: addPoolRequest_def createNewPool_def Let_def)
  moreover have "getPool ?s' newPoolId = Some ?p" by (simp add: getPool_def update_conv')
  moreover have "route ?p = optimizeRoute (requests ?p)"
    "totalDistance ?p = spec_totalDistance (requests ?p)"
    "requests ?p = [request]" "estimatedTime ?p = 30" "costPerCustomer ?p = 100"
    by (simp_all add: optimizeRoute_single spec_totalDistance_single)
  ultimately show ?thesis using None by blast
next
  case (Some m)
  let ?s1 = "s\<lparr>activeRequests := AList.update (id_req request) request (activeRequests s)\<rparr>"
  from Some have "m \<in> set (map snd (pools s))"
    using findMatchingPool_loop_Some [of "map snd (pools s)" request m]
    by (simp add: findMatchingPool_def)
  then obtain k where k: "(k, m) \<in> set (pools s)" by auto
  with assms have idk: "id_pool m = k" and "map_of (pools s) k = Some m"
    by (auto simp: wellFormed_def)
  then have "map_of (pools ?s1) (id_pool m) = Some m" by simp
  from join_fields [OF this, of request] obtain s' pool where
    j: "addToExistingPool ?s1 (id_pool m) request = Inr (s', id_pool m)"
    "getPool s' (id_pool m) = Some pool"
    "requests pool = requests m @ [request]"
    "route pool = optimizeRoute (requests pool)"
    "totalDistance pool = spec_totalDistance (requests pool)"
    "estimatedTime pool = spec_estimatedTime (requests pool)"
    by blast
  from Some j(1) have "addPoolRequest s newPoolId request = Inr (s', id_pool m)"
    by (simp add: addPoolRequest_def Let_def)
  with j Some show ?thesis by blast
qed

lemma removal_fields:
  assumes ps: "pools s = pre @ (poolId, pool0) # post"
    and pre: "\<forall>(k, p)\<in>set pre. \<not> hasRequest requestId p"
    and has: "hasRequest requestId pool0"
    and len: "1 < length (requests pool0)"
  shows "\<exists>pool i. getPool (removeFromPool s requestId) poolId = Some pool \<and>
         findIndex (\<lambda>r. id_req r = requestId) (requests pool0) = Some i \<and>
         requests pool = splice1 i (requests pool0) \<and>
         route pool = optimizeRoute (requests pool) \<and>
         totalDistance pool = spec_totalDistance (requests pool) \<and>
         estimatedTime pool = spec_estimatedTime (requests pool)"
proof -
  from removeFromPool_loop_first [OF pre has, of poolId post "pools s"]
  obtain i where fi: "findIndex (\<lambda>r. id_req r = requestId) (requests pool0) = Some i"
    and i: "i < length (requests pool0)"
    and eq: "removeFromPool_loop (pre @ (poolId, pool0) # post) requestId (pools s) =
      (if splice1 i (requests pool0) = [] then AList.delete poolId (pools s)
       else AList.update poolId (afterRemoval pool0 i) (pools s))"
    by blast
  from i len have "length (splice1 i (requests pool0)) \<noteq> 0"
    by (simp add: length_splice1_eq)
  then have "splice1 i (requests pool0) \<noteq> []" by simp
  with eq have "removeFromPool_loop (pre @ (poolId, pool0) # post) requestId (pools s) =
      AList.update poolId (afterRemoval pool0 i) (pools s)" by simp
  then have "pools (removeFromPool s requestId) =
      AList.update poolId (afterRemoval pool0 i) (pools s)"
    by (simp add: removeFromPool_def ps)
  then have "getPool (removeFromPool s requestId) poolId = Some (afterRemoval pool0 i)"
    by (simp add: getPool_def update_conv')
  moreover have "requests (afterRemoval pool0 i) = splice1 i (requests pool0)"
    "route (afterRemoval pool0 i) = optimizeRoute (requests (afterRemoval pool0 i))"
    "totalDistance (afterRemoval pool0 i) = spec_totalDistance (requests (afterRemoval pool0 i))"
    "estimatedTime (afterRemoval pool0 i) = spec_estimatedTime (requests (afterRemoval pool0 i))"
    by (simp_all add: afterRemoval_fields spec_totalDistance_def spec_estimatedTime_def
        calculateEstimatedTime_def Let_def)
  ultimately show ?thesis using fi by blast
qed

lemma join_then_remove:
  assumes ps: "pools s = pre @ (k, pool0) # post"
    and d: "distinct (map fst (pools s))"
    and pre: "\<forall>(k', p')\<in>set pre. \<not> hasRequest (id_req request) p'"
    and nothas: "\<not> hasRequest (id_req request) pool0"
    and ne: "requests pool0 \<noteq> []"
  shows "\<exists>s1 pool. addToExistingPool s k request = Inr (s1, k) \<and>
           getPool (removeFromPool s1 (id_req request)) k = Some pool \<and>
           requests pool = requests pool0 \<and>
           route pool = optimizeRoute (requests pool0) \<and>
           totalDistance pool = spec_totalDistance (requests pool0) \<and>
           estimatedTime pool = spec_estimatedTime (requests pool0)"
proof -
  let ?j = "afterJoin pool0 request"
  let ?s1 = "s\<lparr>pools := AList.update k ?j (pools s)\<rparr>"
  from d have d': "distinct (map fst (pre @ (k, pool0) # post))" by (simp only: ps)
  then have notin: "k \<notin> fst ` set pre" by auto
  from d' have "map_of (pre @ (k, pool0) # post) k = Some pool0"
    by (intro map_of_is_SomeI) simp_all
  then have m: "map_of (pools s) k = Some pool0" by (simp only: ps)
  then have a: "addToExistingPool s k request = Inr (?s1, k)"
    by (simp add: addToExistingPool_step)
  from notin have ps1: "pools ?s1 = pre @ (k, ?j) # post"
    by (simp add: ps update_middle)
  have rj: "requests ?j = requests pool0 @ [request]" by (simp add: afterJoin_fields)
  then have hasj: "hasRequest (id_req request) ?j" by (simp add: hasRequest_def)
  from ne rj have lenj: "1 < length (requests ?j)" by (cases "requests pool0") simp_all
  from removal_fields [OF ps1 pre hasj lenj] obtain pool i where
    g: "getPool (removeFromPool ?s1 (id_req request)) k = Some pool"
    and fi: "findIndex (\<lambda>r. id_req r = id_req request) (requests ?j) = Some i"
    and f: "requests pool = splice1 i (requests ?j)"
      "route pool = optimizeRoute (requests pool)"
      "totalDistance pool = spec_totalDistance (requests pool)"
      "estimatedTime pool = spec_estimatedTime (requests pool)"
    by blast
  from nothas have "findIndex (\<lambda>r. id_req r = id_req request) (requests pool0) = None"
    by (simp add: findIndex_hasRequest)
  then have "\<forall>x\<in>set (requests pool0). \<not> id_req x = id_req request"
    by (simp only: findIndex_None_iff)
  then have "findIndex (\<lambda>r. id_req r = id_req request) (requests pool0 @ [request]) =
      Some (length (requests pool0))"
    by (rule findIndex_append_last) simp
  with fi rj have "i = length (requests pool0)" by simp
  with f(1) rj have r: "requests pool = requests pool0" by (simp add: splice1_last)
  with f(2-4) have "route pool = optimizeRoute (requests pool0)"
    "totalDistance pool = spec_totalDistance (requests pool0)"
    "estimatedTime pool = spec_estimatedTime (requests pool0)" by simp_all
  with a g r show ?thesis by blast
qed


text \<open>
  C3, amended. The route and the total distance of the affected pool are those of the
  allocator for its current membership after every \<^verbatim>\<open>addPoolRequest\<close> (on a registry
  reached from the empty service), after every join by \<^verbatim>\<open>addToExistingPool\<close> and after
  every \<^verbatim>\<open>removeFromPool\<close> that leaves a member in the first pool holding the request.
  The estimated time is the allocator's as well after a join and after such a removal;
  only a pool that \<^verbatim>\<open>addPoolRequest\<close> has newly created carries the placeholders 30 and
  100 as estimated time and cost per customer. A join followed by the removal of the
  joined request gives back the membership, the route and the total distance, with the
  allocator's estimated time for that membership. Nothing is said about the cost per
  customer after a join or a removal.
\<close>

theorem derived_fields_reflect_membership:
  "(run emptyService ops = Inr s \<longrightarrow>
      (\<exists>s' poolId pool. addPoolRequest s newPoolId request = Inr (s', poolId) \<and>
         getPool s' poolId = Some pool \<and>
         route pool = optimizeRoute (requests pool) \<and>
         totalDistance pool = spec_totalDistance (requests pool) \<and>
         (findMatchingPool s request = None \<and> poolId = newPoolId \<and>
            requests pool = [request] \<and> estimatedTime pool = 30 \<and>
            costPerCustomer pool = 100 \<or>
          (\<exists>m. findMatchingPool s request = Some m \<and> poolId = id_pool m \<and>
             requests pool = requests m @ [request] \<and>
             estimatedTime pool = spec_estimatedTime (requests pool))))) \<and>
   (map_of (pools sj) kj = Some poolj \<longrightarrow>
      (\<exists>s' pool. addToExistingPool sj kj requestj = Inr (s', kj) \<and>
         getPool s' kj = Some pool \<and>
         requests pool = requests poolj @ [requestj] \<and>
         route pool = optimizeRoute (requests pool) \<and>
         totalDistance pool = spec_totalDistance (requests pool) \<and>
         estimatedTime pool = spec_estimatedTime (requests pool))) \<and>
   (pools sr = pre @ (poolId0, pool0) # post \<and> distinct (map fst (pools sr)) \<and>
    (\<forall>(k, p)\<in>set pre. \<not> hasRequest requestId p) \<and> hasRequest requestId pool0 \<and>
    1 < length (requests pool0) \<longrightarrow>
      (\<exists>pool i. getPool (removeFromPool sr requestId) poolId0 = Some pool \<and>
         findIndex (\<lambda>r. id_req r = requestId) (requests pool0) = Some i \<and>
         requests pool = splice1 i (requests pool0) \<and>
         route pool = optimizeRoute (requests pool) \<and>
         totalDistance pool = spec_totalDistance (requests pool) \<and>
         estimatedTime pool = spec_estimatedTime (requests pool))) \<and>
   (pools st = pre1 @ (k1, pool1) # post1 \<and> distinct (map fst (pools st)) \<and>
    (\<forall>(k, p)\<in>set pre1. \<not> hasRequest (id_req request1) p) \<and>
    \<not> hasRequest (id_req request1) pool1 \<and> requests pool1 \<noteq> [] \<longrightarrow>
      (\<exists>s1 pool. addToExistingPool st k1 request1 = Inr (s1, k1) \<and>
         getPool (removeFromPool s1 (id_req request1)) k1 = Some pool \<and>
         requests pool = requests pool1 \<and>
         route pool = optimizeRoute (requests pool1) \<and>
         totalDistance pool = spec_totalDistance (requests pool1) \<and>
         estimatedTime pool = spec_estimatedTime (requests pool1)))"
proof (intro conjI impI; (elim conjE)?)
  assume "run emptyService ops = Inr s"
  with emptyService_invariant have "wellFormed s" using run_invariant by blast
  then show "\<exists>s' poolId pool. addPoolRequest s newPoolId request = Inr (s', poolId) \<and>
         getPool s' poolId = Some pool \<and>
         route pool = optimizeRoute (requests pool) \<and>
         totalDistance pool = spec_totalDistance (requests pool) \<and>
         (findMatchingPool s request = None \<and> poolId = newPoolId \<and>
            requests pool = [request] \<and> estimatedTime pool = 30 \<and>
            costPerCustomer pool = 100 \<or>
          (\<exists>m. findMatchingPool s request = Some m \<and> poolId = id_pool m \<and>
             requests pool = requests m @ [request] \<and>
             estimatedTime pool = spec_estimatedTime (requests pool)))"
    by (rule add_fields)
next
  assume "map_of (pools sj) kj = Some poolj"
  then show "\<exists>s' pool. addToExistingPool sj kj requestj = Inr (s', kj) \<and>
         getPool s' kj = Some pool \<and>
         requests pool = requests poolj @ [requestj] \<and>
         route pool = optimizeRoute (requests pool) \<and>
         totalDistance pool = spec_totalDistance (requests pool) \<and>
         estimatedTime pool = spec_estimatedTime (requests pool)"
    by (rule join_fields)
next
  assume "pools sr = pre @ (poolId0, pool0) # post"
    "\<forall>(k, p)\<in>set pre. \<not> hasRequest requestId p" "hasRequest requestId pool0"
    "1 < length (requests pool0)"
  then show "\<exists>pool i. getPool (removeFromPool sr requestId) poolId0 = Some pool \<and>
         findIndex (\<lambda>r. id_req r = requestId) (requests pool0) = Some i \<and>
         requests pool = splice1 i (requests pool0) \<and>
         route pool = optimizeRoute (requests pool) \<and>
         totalDistance pool = spec_totalDistance (requests pool) \<and>
         estimatedTime pool = spec_estimatedTime (requests pool)"
    by (rule removal_fields)
next
  assume "pools st = pre1 @ (k1, pool1) # post1" "distinct (map fst (pools st))"
    "\<forall>(k, p)\<in>set pre1. \<not> hasRequest (id_req request1) p"
    "\<not> hasRequest (id_req request1) pool1" "requests pool1 \<noteq> []"
  then show "\<exists>s1 pool. addToExistingPool st k1 request1 = Inr (s1, k1) \<and>
         getPool (removeFromPool s1 (id_req request1)) k1 = Some pool \<and>
         requests pool = requests pool1 \<and>
         route pool = optimizeRoute (requests pool1) \<and>
         totalDistance pool = spec_totalDistance (requests pool1) \<and>
         estimatedTime pool = spec_estimatedTime (requests pool1)"
    by (rule join_then_remove)
qed

theorem derived_fields_reflect_membership_witness:
  "(\<exists>s' pool. addPoolRequest emptyService ''pool_1'' requestA = Inr (s', ''pool_1'') \<and>
      getPool s' ''pool_1'' = Some pool \<and> requests pool = [requestA] \<and>
      totalDistance pool = calculateDistance (pickup requestA) (dropoff requestA) \<and>
      estimatedTime pool = 30 \<and> costPerCustomer pool = 100) \<and>
   (\<exists>pool. addToExistingPool serviceA ''pool_1'' requestB = Inr (serviceAB, ''pool_1'') \<and>
      getPool serviceAB ''pool_1'' = Some pool \<and> requests pool = [requestA, requestB] \<and>
      totalDistance pool = calculateDistance (pickup requestA) (dropoff requestA) \<and>
      estimatedTime pool = calculateDistance (pickup requestA) (dropoff requestA) * 2 + 20) \<and>
   (\<exists>pool. getPool (removeFromPool serviceAB ''req_2'') ''pool_1'' = Some pool \<and>
      requests pool = [requestA] \<and>
      route pool = [bare (pickup requestA), bare (dropoff requestA)] \<and>
      totalDistance pool = calculateDistance (pickup requestA) (dropoff requestA) \<and>
      estimatedTime pool = calculateDistance (pickup requestA) (dropoff requestA) * 2 + 10)"
proof -
  have ids: "id_req requestA = ''req_1''" "id_req requestB = ''req_2''"
    by (simp_all add: requestA_def requestB_def)
  from serviceAB_pool obtain poolAB where
    ab: "addToExistingPool serviceA ''pool_1'' requestB = Inr (serviceAB, ''pool_1'')"
    and pab: "pools serviceAB = [(''pool_1'', poolAB)]"
    and rab: "requests poolAB = [requestA, requestB]" by blast
  note inst = derived_fields_reflect_membership
    [of "[]" emptyService "''pool_1''" requestA serviceA "''pool_1''" poolA requestB
        serviceAB "[]" "''pool_1''" poolAB "[]" "''req_2''"
        serviceA "[]" "''pool_1''" poolA "[]" requestB]
  have "run emptyService [] = Inr emptyService" by simp
  from inst [THEN conjunct1, THEN mp, OF this] obtain s' poolId pool where
    a: "addPoolRequest emptyService ''pool_1'' requestA = Inr (s', poolId)"
      "getPool s' poolId = Some pool"
      "totalDistance pool = spec_totalDistance (requests pool)"
    and c: "findMatchingPool emptyService requestA = None \<and> poolId = ''pool_1'' \<and>
            requests pool = [requestA] \<and> estimatedTime pool = 30 \<and>
            costPerCustomer pool = 100 \<or>
          (\<exists>m. findMatchingPool emptyService requestA = Some m \<and> poolId = id_pool m \<and>
             requests pool = requests m @ [requestA] \<and>
             estimatedTime pool = spec_estimatedTime (requests pool))"
    by blast
  have "findMatchingPool emptyService requestA = None"
    by (simp add: findMatchingPool_def emptyService_def)
  with c have c': "poolId = ''pool_1''" "requests pool = [requestA]" "estimatedTime pool = 30"
    "costPerCustomer pool = 100" by simp_all
  with a have first: "\<exists>s' pool. addPoolRequest emptyService ''pool_1'' requestA = Inr (s', ''pool_1'') \<and>
      getPool s' ''pool_1'' = Some pool \<and> requests pool = [requestA] \<and>
      totalDistance pool = calculateDistance (pickup requestA) (dropoff requestA) \<and>
      estimatedTime pool = 30 \<and> costPerCustomer pool = 100"
    by (auto simp: spec_totalDistance_single)
  have "map_of (pools serviceA) ''pool_1'' = Some poolA" by (simp add: serviceA_def)
  from inst [THEN conjunct2, THEN conjunct1, THEN mp, OF this] obtain s2 pool2 where
    j: "addToExistingPool serviceA ''pool_1'' requestB = Inr (s2, ''pool_1'')"
      "getPool s2 ''pool_1'' = Some pool2"
      "requests pool2 = requests poolA @ [requestB]"
      "totalDistance pool2 = spec_totalDistance (requests pool2)"
      "estimatedTime pool2 = spec_estimatedTime (requests pool2)"
    by blast
  from j(1) ab have s2: "s2 = serviceAB" by simp
  from j(3) have r2: "requests pool2 = [requestA, requestB]" by (simp add: poolA_def)
  with j(4,5) have "totalDistance pool2 = calculateDistance (pickup requestA) (dropoff requestA)"
    "estimatedTime pool2 = calculateDistance (pickup requestA) (dropoff requestA) * 2 + 20"
    by (simp_all add: spec_estimatedTime_def spec_totalDistance_def totalDistance_AB)
  with ab j(2) s2 r2 have second: "\<exists>pool. addToExistingPool serviceA ''pool_1'' requestB = Inr (serviceAB, ''pool_1'') \<and>
      getPool serviceAB ''pool_1'' = Some pool \<and> requests pool = [requestA, requestB] \<and>
      totalDistance pool = calculateDistance (pickup requestA) (dropoff requestA) \<and>
      estimatedTime pool = calculateDistance (pickup requestA) (dropoff requestA) * 2 + 20"
    by blast
  from pab rab have h: "pools serviceAB = [] @ (''pool_1'', poolAB) # [] \<and>
      distinct (map fst (pools serviceAB)) \<and>
      (\<forall>(k, p)\<in>set []. \<not> hasRequest ''req_2'' p) \<and> hasRequest ''req_2'' poolAB \<and>
      1 < length (requests poolAB)"
    by (simp add: hasRequest_def ids)
  from inst [THEN conjunct2, THEN conjunct2, THEN conjunct1, THEN mp, OF h] obtain pool3 i where
    g: "getPool (removeFromPool serviceAB ''req_2'') ''pool_1'' = Some pool3"
    and fi: "findIndex (\<lambda>r. id_req r = ''req_2'') (requests poolAB) = Some i"
    and f: "requests pool3 = splice1 i (requests poolAB)"
      "route pool3 = optimizeRoute (requests pool3)"
      "totalDistance pool3 = spec_totalDistance (requests pool3)"
      "estimatedTime pool3 = spec_estimatedTime (requests pool3)"
    by blast
  from fi rab have "i = 1" by (simp add: ids)
  with f(1) rab have r3: "requests pool3 = [requestA]" by (simp add: splice1_def)
  with f(2-4) have "route pool3 = [bare (pickup requestA), bare (dropoff requestA)]"
    "totalDistance pool3 = calculateDistance (pickup requestA) (dropoff requestA)"
    "estimatedTime pool3 = calculateDistance (pickup requestA) (dropoff requestA) * 2 + 10"
    by (simp_all add: optimizeRoute_single spec_totalDistance_single spec_estimatedTime_def)
  with g r3 have third: "\<exists>pool. getPool (removeFromPool serviceAB ''req_2'') ''pool_1'' = Some pool \<and>
      requests pool = [requestA] \<and>
      route pool = [bare (pickup requestA), bare (dropoff requestA)] \<and>
      totalDistance pool = calculateDistance (pickup requestA) (dropoff requestA) \<and>
      estimatedTime pool = calculateDistance (pickup requestA) (dropoff requestA) * 2 + 10"
    by blast
  have h4: "pools serviceA = [] @ (''pool_1'', poolA) # [] \<and>
      distinct (map fst (pools serviceA)) \<and>
      (\<forall>(k, p)\<in>set []. \<not> hasRequest (id_req requestB) p) \<and>
      \<not> hasRequest (id_req requestB) poolA \<and> requests poolA \<noteq> []"
    by (simp add: serviceA_def poolA_def hasRequest_def ids)
  from inst [THEN conjunct2, THEN conjunct2, THEN conjunct2, THEN mp, OF h4] obtain s4 pool4 where
    "addToExistingPool serviceA ''pool_1'' requestB = Inr (s4, ''pool_1'')"
    "getPool (removeFromPool s4 (id_req requestB)) ''pool_1'' = Some pool4"
    "requests pool4 = requests poolA"
    by blast
  from first second third show ?thesis by (intro conjI)
qed

subsection \<open>Removing the only member\<close>

lemma delete_middle:
  "distinct (map fst (pre @ (k, v) # post)) \<Longrightarrow> AList.delete k (pre @ (k, v) # post) = pre @ post"
proof -
  assume "distinct (map fst (pre @ (k, v) # post))"
  then have "k \<notin> fst ` set pre" and "k \<notin> fst ` set post" by auto
  then have "AList.delete k pre = pre" and "AList.delete k post = post" by simp_all
  moreover have "AList.delete k (pre @ (k, v) # post) = AList.delete k pre @ AList.delete k post"
    by (simp add: AList.delete_eq)
  ultimately show ?thesis by simp
qed

lemma map_of_absent: "k \<notin> fst ` set al \<Longrightarrow> map_of al k = None"
  by (simp add: map_of_eq_None_iff)

lemma removeFromPool_sole_member:
  assumes ps: "pools s = pre @ (poolId, pool) # post"
    and d: "distinct (map fst (pools s))"
    and rs: "requests pool = [r]"
    and pre: "\<forall>(k, p)\<in>set pre. \<not> hasRequest (id_req r) p"
  shows "pools (removeFromPool s (id_req r)) = pre @ post"
    and "getPool (removeFromPool s (id_req r)) poolId = None"
proof -
  from rs have has: "hasRequest (id_req r) pool" by (simp add: hasRequest_def)
  from removeFromPool_loop_first [OF pre has, of poolId post "pools s"]
  obtain i where i: "i < length (requests pool)"
    and eq: "removeFromPool_loop (pre @ (poolId, pool) # post) (id_req r) (pools s) =
      (if splice1 i (requests pool) = [] then AList.delete poolId (pools s)
       else AList.update poolId (afterRemoval pool i) (pools s))"
    by blast
  from i rs have "splice1 i (requests pool) = []" by (simp add: splice1_def)
  with eq have "removeFromPool_loop (pre @ (poolId, pool) # post) (id_req r) (pools s) =
      AList.delete poolId (pools s)"
    by simp
  moreover from d have d': "distinct (map fst (pre @ (poolId, pool) # post))"
    by (simp only: ps)
  then have "AList.delete poolId (pre @ (poolId, pool) # post) = pre @ post"
    by (rule delete_middle)
  ultimately show p: "pools (removeFromPool s (id_req r)) = pre @ post"
    by (simp add: removeFromPool_def ps)
  from d' have "poolId \<notin> fst ` set pre" and "poolId \<notin> fst ` set post" by auto
  then have "poolId \<notin> fst ` set (pre @ post)" by (simp add: image_Un)
  then have "map_of (pre @ post) poolId = None" by (rule map_of_absent)
  with p show "getPool (removeFromPool s (id_req r)) poolId = None"
    by (simp only: getPool_def)
qed


lemma run_nonempty:
  "\<exists>s'. run emptyService ops = Inr s' \<and> (\<forall>p\<in>set (getActivePools s'). requests p \<noteq> [])"
proof -
  obtain s' where s': "run emptyService ops = Inr s'" using run_total by blast
  with emptyService_invariant have "capacityOk s'" using run_invariant by blast
  then have "\<forall>p\<in>set (getActivePools s'). requests p \<noteq> []"
    unfolding capacityOk_def by fastforce
  with s' show ?thesis by blast
qed

text \<open>
  C7, as stated, fails when an earlier pool holds a request with the same id: after
  \<^verbatim>\<open>addPoolRequest(requestA)\<close> twice, \<open>pool_2\<close> has \<open>requestA\<close> as its only member,
  and \<^verbatim>\<open>removeFromPool\<close> of its id empties and deletes \<open>pool_1\<close> and stops;
  \<open>pool_2\<close> stays in the registry.
\<close>

theorem sole_member_duplicate_id_counterexample:
  "run emptyService [AddRequest ''pool_1'' requestA, AddRequest ''pool_2'' requestA] =
     Inr serviceAA \<and>
   getPool serviceAA ''pool_2'' = Some (poolA\<lparr>id_pool := ''pool_2''\<rparr>) \<and>
   requests (poolA\<lparr>id_pool := ''pool_2''\<rparr>) = [requestA] \<and>
   membership (removeFromPool serviceAA (id_req requestA)) = [(''pool_2'', [''req_1''])] \<and>
   getPool (removeFromPool serviceAA (id_req requestA)) ''pool_2'' =
     Some (poolA\<lparr>id_pool := ''pool_2''\<rparr>)"
  by (simp add: addPoolRequest_creates createNewPool_def emptyService_def serviceAA_def
      poolA_def getPool_def removeFromPool_def membership_def requestA_def splice1_def)


text \<open>
  C7, amended. When a pool has exactly one member and no pool before it in the registry
  holds a request with the same id, \<^verbatim>\<open>removeFromPool\<close> of that id deletes the pool and
  \<^verbatim>\<open>getPool\<close> returns null (\<open>None\<close>) for its id. After any sequence of operations on
  the empty service no pool of the registry is empty.
\<close>

theorem sole_member_removal:
  "(pools s = pre @ (poolId, pool) # post \<and> distinct (map fst (pools s)) \<and>
    requests pool = [r] \<and> (\<forall>(k, p)\<in>set pre. \<not> hasRequest (id_req r) p) \<longrightarrow>
      pools (removeFromPool s (id_req r)) = pre @ post \<and>
      getPool (removeFromPool s (id_req r)) poolId = None) \<and>
   (\<exists>s'. run emptyService ops = Inr s' \<and> (\<forall>p\<in>set (getActivePools s'). requests p \<noteq> []))"
proof (intro conjI impI; (elim conjE)?)
  assume "pools s = pre @ (poolId, pool) # post" "distinct (map fst (pools s))"
    "requests pool = [r]" "\<forall>(k, p)\<in>set pre. \<not> hasRequest (id_req r) p"
  then show "pools (removeFromPool s (id_req r)) = pre @ post"
    and "getPool (removeFromPool s (id_req r)) poolId = None"
    by (rule removeFromPool_sole_member)+
next
  show "\<exists>s'. run emptyService ops = Inr s' \<and> (\<forall>p\<in>set (getActivePools s'). requests p \<noteq> [])"
    by (rule run_nonempty)
qed

theorem sole_member_removal_witness:
  "membership serviceA = [(''pool_1'', [''req_1''])] \<and>
   pools (removeFromPool serviceA ''req_1'') = [] \<and>
   getPool (removeFromPool serviceA ''req_1'') ''pool_1'' = None \<and>
   (\<exists>s'. run emptyService [AddRequest ''pool_1'' requestA, RemoveRequest ''req_1'',
                            AddRequest ''pool_2'' requestB] = Inr s' \<and>
         membership s' = [(''pool_2'', [''req_2''])])"
proof -
  let ?ops = "[AddRequest ''pool_1'' requestA, RemoveRequest ''req_1'',
               AddRequest ''pool_2'' requestB]"
  note inst = sole_member_removal [of serviceA "[]" "''pool_1''" poolA "[]" requestA ?ops]
  have h: "pools serviceA = [] @ (''pool_1'', poolA) # [] \<and> distinct (map fst (pools serviceA)) \<and>
    requests poolA = [requestA] \<and> (\<forall>(k, p)\<in>set []. \<not> hasRequest (id_req requestA) p)"
    by (simp add: serviceA_def poolA_def)
  from inst have "pools (removeFromPool serviceA (id_req requestA)) = [] @ [] \<and>
    getPool (removeFromPool serviceA (id_req requestA)) ''pool_1'' = None"
    using h by (rule conjunct1 [THEN mp])
  then have r: "pools (removeFromPool serviceA ''req_1'') = []"
    "getPool (removeFromPool serviceA ''req_1'') ''pool_1'' = None"
    by (simp_all add: requestA_def)
  from inst obtain s' where s': "run emptyService ?ops = Inr s'" by blast
  then have "membership s' = [(''pool_2'', [''req_2''])]"
    by (auto simp: addPoolRequest_creates createNewPool_def emptyService_def membership_def
        removeFromPool_def requestA_def requestB_def splice1_def)
  moreover have "membership serviceA = [(''pool_1'', [''req_1''])]"
    by (simp add: requestA_def serviceA_def poolA_def membership_def)
  ultimately show ?thesis using s' r by blast
qed


subsection \<open>Unknown request ids\<close>

lemma run_A: "run emptyService [AddRequest ''pool_1'' requestA] = Inr serviceA"
  by (simp add: addPoolRequest_creates serviceA_def poolA_def createNewPool_def
      emptyService_def requestA_def)

text \<open>
  C9. Removing a request id that no pool holds raises nothing and leaves the pool map,
  and with it every pool and its derived fields, as it was; only the entry of the id
  in \<^verbatim>\<open>activeRequests\<close>, if there is one, is deleted.
\<close>

theorem removeFromPool_unknown_id:
  assumes "\<forall>pool\<in>set (getActivePools s). \<not> hasRequest requestId pool"
  shows "run s [RemoveRequest requestId] =
           Inr (s\<lparr>activeRequests := AList.delete requestId (activeRequests s)\<rparr>)"
proof -
  from assms have "\<forall>(k, p)\<in>set (pools s). \<not> hasRequest requestId p"
    by (fastforce simp: getActivePools_def)
  then have "removeFromPool_loop (pools s) requestId (pools s) = pools s"
    by (rule removeFromPool_loop_absent)
  then show ?thesis by (simp add: removeFromPool_def)
qed

theorem removeFromPool_unknown_id_witness:
  "run serviceA [RemoveRequest ''req_9''] =
     Inr (serviceA\<lparr>activeRequests := AList.delete ''req_9'' (activeRequests serviceA)\<rparr>) \<and>
   membership serviceA = [(''pool_1'', [''req_1''])]"
  using removeFromPool_unknown_id [of serviceA "''req_9''"]
  by (simp add: serviceA_def poolA_def getActivePools_def requestA_def hasRequest_def
      membership_def)

end
